theory Spec2Isabelle
  imports Main "HOL-Library.Word" "HOL-Library.Monad_Syntax"
begin

unbundle bit_operations_syntax

section \<open>The heap of \<open>mm.c\<close>\<close>

text \<open>
  \<open>mm.c\<close> is an explicit-free-list allocator over one contiguous heap that grows through
  \<open>mem_sbrk\<close>. Pointers and \<open>size_t\<close> values are 64-bit words whose arithmetic wraps
  around. Memory is a store of bytes, little-endian as on the x86-64 target of the lab.
  The heap is the window \<open>[heap_lo, brk)\<close> of that store: a load or a store that
  touches a byte outside the window does not return (the C program has undefined
  behaviour there), and neither does a loop that runs forever. Such a call has the value
  \<open>None\<close>; a call that returns has the value \<open>Some\<close> of its result and the heap it
  leaves.
\<close>

type_synonym size_t = "64 word"
type_synonym addr = "64 word"

record heap =
  mem :: "addr \<Rightarrow> 8 word"
  heap_lo :: addr
  brk :: addr
  heap_max :: addr
  first :: addr

text \<open>\<open>first\<close> is the global \<open>node *first\<close>; the null pointer is the word 0.\<close>

definition in_heap :: "heap \<Rightarrow> addr \<Rightarrow> nat \<Rightarrow> bool" where
  "in_heap s a n = (unat (heap_lo s) \<le> unat a \<and> unat a + n \<le> unat (brk s))"

definition load8 :: "heap \<Rightarrow> addr \<Rightarrow> 8 word option" where
  "load8 s a = (if in_heap s a 1 then Some (mem s a) else None)"

definition store8 :: "addr \<Rightarrow> 8 word \<Rightarrow> heap \<Rightarrow> heap option" where
  "store8 a b s = (if in_heap s a 1 then Some (s\<lparr>mem := (mem s)(a := b)\<rparr>) else None)"

definition word_at :: "(addr \<Rightarrow> 8 word) \<Rightarrow> addr \<Rightarrow> 64 word" where
  "word_at m a =
     ucast (m a) OR push_bit 8 (ucast (m (a + 1))) OR push_bit 16 (ucast (m (a + 2)))
     OR push_bit 24 (ucast (m (a + 3))) OR push_bit 32 (ucast (m (a + 4)))
     OR push_bit 40 (ucast (m (a + 5))) OR push_bit 48 (ucast (m (a + 6)))
     OR push_bit 56 (ucast (m (a + 7)))"

definition put_word :: "addr \<Rightarrow> 64 word \<Rightarrow> (addr \<Rightarrow> 8 word) \<Rightarrow> (addr \<Rightarrow> 8 word)" where
  "put_word a v m =
     m(a := ucast v, a + 1 := ucast (drop_bit 8 v), a + 2 := ucast (drop_bit 16 v),
       a + 3 := ucast (drop_bit 24 v), a + 4 := ucast (drop_bit 32 v),
       a + 5 := ucast (drop_bit 40 v), a + 6 := ucast (drop_bit 48 v),
       a + 7 := ucast (drop_bit 56 v))"

definition load64 :: "heap \<Rightarrow> addr \<Rightarrow> 64 word option" where
  "load64 s a = (if in_heap s a 8 then Some (word_at (mem s) a) else None)"

definition store64 :: "addr \<Rightarrow> 64 word \<Rightarrow> heap \<Rightarrow> heap option" where
  "store64 a v s = (if in_heap s a 8 then Some (s\<lparr>mem := put_word a v (mem s)\<rparr>) else None)"

subsection \<open>The heap-growth primitive and the byte routines of \<open>memlib\<close>\<close>

text \<open>
  Modelled from the spec: \<open>mem_sbrk\<close> of \<open>memlib.c\<close>, which is not among the sources.
  The spec (section 6) has \<open>grow(byte_count)\<close> add the count to the heap size and return
  the address immediately following the previous heap end, or a distinguished failure
  value if growth is impossible. Growth is impossible here when the new end would pass
  \<open>heap_max\<close>; the failure value is \<open>(void * ) -1\<close>.
\<close>

definition mem_sbrk :: "size_t \<Rightarrow> heap \<Rightarrow> addr \<times> heap" where
  "mem_sbrk incr s =
     (if unat (brk s) + unat incr \<le> unat (heap_max s)
      then (brk s, s\<lparr>brk := brk s + incr\<rparr>)
      else (- 1, s))"

text \<open>
  Modelled from the spec: \<open>mem_memcpy\<close> and \<open>mem_memset\<close> of \<open>memlib.c\<close>, the
  driver's aliases of \<open>memcpy\<close> and \<open>memset\<close>: a copy and a fill of \<open>n\<close> bytes, byte
  by byte from the lowest address.
\<close>

fun copy_bytes :: "nat \<Rightarrow> addr \<Rightarrow> addr \<Rightarrow> heap \<Rightarrow> heap option" where
  "copy_bytes 0 dst src s = Some s"
| "copy_bytes (Suc k) dst src s =
     do { b \<leftarrow> load8 s src; s1 \<leftarrow> store8 dst b s; copy_bytes k (dst + 1) (src + 1) s1 }"

definition mem_memcpy :: "addr \<Rightarrow> addr \<Rightarrow> size_t \<Rightarrow> heap \<Rightarrow> heap option" where
  "mem_memcpy dst src n s = copy_bytes (unat n) dst src s"

fun fill_bytes :: "nat \<Rightarrow> addr \<Rightarrow> 8 word \<Rightarrow> heap \<Rightarrow> heap option" where
  "fill_bytes 0 dst c s = Some s"
| "fill_bytes (Suc k) dst c s = do { s1 \<leftarrow> store8 dst c s; fill_bytes k (dst + 1) c s1 }"

definition mem_memset :: "addr \<Rightarrow> 8 word \<Rightarrow> size_t \<Rightarrow> heap \<Rightarrow> heap option" where
  "mem_memset dst c n s = fill_bytes (unat n) dst c s"

subsection \<open>Block layout helpers\<close>

definition align :: "size_t \<Rightarrow> size_t" where
  "align x = 16 * ((x + 16 - 1) div 16)"

definition lsb_a :: "size_t \<Rightarrow> size_t \<Rightarrow> size_t" where
  "lsb_a sz a = sz OR a"

definition get_size :: "heap \<Rightarrow> addr \<Rightarrow> size_t option" where
  "get_size s bptr = do { w \<leftarrow> load64 s bptr; Some (w AND NOT 1) }"

definition write_value :: "addr \<Rightarrow> size_t \<Rightarrow> heap \<Rightarrow> heap option" where
  "write_value bptr v s = store64 bptr v s"

definition get_allocated :: "heap \<Rightarrow> addr \<Rightarrow> bool option" where
  "get_allocated s bptr =
     (if bptr = 0 then Some True
      else do { w \<leftarrow> load64 s bptr; Some (w AND 1 \<noteq> 0) })"

definition next_blk :: "heap \<Rightarrow> addr \<Rightarrow> addr option" where
  "next_blk s bptr = do { sz \<leftarrow> get_size s bptr; Some (bptr + sz + 16) }"

definition prev_blk :: "heap \<Rightarrow> addr \<Rightarrow> addr option" where
  "prev_blk s bptr = do { sz \<leftarrow> get_size s (bptr - 8); Some (bptr - sz - 16) }"

subsection \<open>The free list\<close>

text \<open>
  A \<open>node\<close> lives in the payload of a free block: \<open>next\<close> at offset 0 and \<open>prev\<close> at
  offset 8 of the payload, that is at offsets 8 and 16 of the block.
\<close>

definition remove_node :: "addr \<Rightarrow> heap \<Rightarrow> heap option" where
  "remove_node bptr s =
     do {
       let curr = bptr + 8;
       prev_node \<leftarrow> load64 s (curr + 8);
       next_node \<leftarrow> load64 s curr;
       if prev_node \<noteq> 0 \<and> next_node \<noteq> 0 then
         do {
           n \<leftarrow> load64 s curr;
           s1 \<leftarrow> store64 prev_node n s;
           p \<leftarrow> load64 s1 (curr + 8);
           store64 (next_node + 8) p s1
         }
       else if prev_node = 0 \<and> next_node \<noteq> 0 then
         do {
           s1 \<leftarrow> store64 (next_node + 8) 0 s;
           n \<leftarrow> load64 s1 curr;
           Some (s1\<lparr>first := n\<rparr>)
         }
       else if prev_node \<noteq> 0 \<and> next_node = 0 then
         store64 prev_node 0 s
       else if prev_node = 0 \<and> prev_node = 0 then
         Some (s\<lparr>first := 0\<rparr>)
       else Some s
     }"

definition add_node :: "addr \<Rightarrow> heap \<Rightarrow> heap option" where
  "add_node bptr s =
     do {
       let n = bptr + 8;
       s1 \<leftarrow> store64 n (first s) s;
       s2 \<leftarrow> store64 (n + 8) 0 s1;
       s3 \<leftarrow> (if first s2 \<noteq> 0 then store64 (first s2 + 8) n s2 else Some s2);
       Some (s3\<lparr>first := n\<rparr>)
     }"

subsection \<open>Coalescing, splitting and placement\<close>

definition coalesce :: "addr \<Rightarrow> heap \<Rightarrow> heap option" where
  "coalesce blkptr s =
     do {
       pf \<leftarrow> get_size s (blkptr - 8);
       (nextBlock, prevBlock) \<leftarrow>
         (if pf = 0 then do { nb \<leftarrow> next_blk s blkptr; Some (nb, 0) }
          else do {
            sz \<leftarrow> get_size s blkptr;
            ft \<leftarrow> get_size s (blkptr + sz + 8);
            if ft = 0 then do { pb \<leftarrow> prev_blk s blkptr; Some (0, pb) }
            else do { nb \<leftarrow> next_blk s blkptr; pb \<leftarrow> prev_blk s blkptr; Some (nb, pb) }
          });
       sz \<leftarrow> get_size s blkptr;
       prev \<leftarrow> get_allocated s prevBlock;
       next \<leftarrow> get_allocated s nextBlock;
       if prev \<and> next then add_node blkptr s
       else if prev \<and> \<not> next then
         do {
           nextSize \<leftarrow> get_size s nextBlock;
           let sz = sz + (nextSize + 16);
           s1 \<leftarrow> remove_node nextBlock s;
           s2 \<leftarrow> write_value blkptr (lsb_a sz 0) s1;
           s3 \<leftarrow> write_value (blkptr + sz + 8) (lsb_a sz 0) s2;
           add_node blkptr s3
         }
       else if \<not> prev \<and> next then
         do {
           prevSize \<leftarrow> get_size s prevBlock;
           let sz = sz + (prevSize + 16);
           s1 \<leftarrow> remove_node prevBlock s;
           s2 \<leftarrow> write_value prevBlock (lsb_a sz 0) s1;
           s3 \<leftarrow> write_value (prevBlock + sz + 8) (lsb_a sz 0) s2;
           add_node prevBlock s3
         }
       else if \<not> prev \<and> \<not> next then
         do {
           prevSize \<leftarrow> get_size s prevBlock;
           nextSize \<leftarrow> get_size s nextBlock;
           let sz = sz + (prevSize + nextSize + 32);
           s1 \<leftarrow> remove_node prevBlock s;
           s2 \<leftarrow> remove_node nextBlock s1;
           s3 \<leftarrow> write_value prevBlock (lsb_a sz 0) s2;
           s4 \<leftarrow> write_value (prevBlock + sz + 8) (lsb_a sz 0) s3;
           add_node prevBlock s4
         }
       else Some s
     }"

definition split :: "addr \<Rightarrow> size_t \<Rightarrow> heap \<Rightarrow> heap option" where
  "split ptr sz s =
     do {
       oldSize \<leftarrow> get_size s ptr;
       let rest_size = oldSize - sz - 16;
       s1 \<leftarrow> write_value ptr (lsb_a sz 1) s;
       s2 \<leftarrow> write_value (ptr + sz + 8) (lsb_a sz 1) s1;
       s3 \<leftarrow> remove_node ptr s2;
       let nextBlk = ptr + sz + 16;
       s4 \<leftarrow> write_value nextBlk (lsb_a rest_size 0) s3;
       s5 \<leftarrow> write_value (nextBlk + rest_size + 8) (lsb_a rest_size 0) s4;
       a \<leftarrow> get_allocated s5 (nextBlk + rest_size + 16);
       if \<not> a then coalesce nextBlk s5 else add_node nextBlk s5
     }"

definition place :: "addr \<Rightarrow> size_t \<Rightarrow> heap \<Rightarrow> heap option" where
  "place bptr sz s =
     do {
       bsize \<leftarrow> get_size s bptr;
       let rest = bsize - sz;
       if rest \<ge> 32 then split bptr sz s
       else do {
         s1 \<leftarrow> write_value bptr (lsb_a bsize 1) s;
         s2 \<leftarrow> write_value (bptr + bsize + 8) (lsb_a bsize 1) s1;
         remove_node bptr s2
       }
     }"

subsection \<open>Heap extension and first fit\<close>

definition expand_heap :: "size_t \<Rightarrow> heap \<Rightarrow> (addr \<times> heap) option" where
  "expand_heap bytes0 s =
     (let bytes = align bytes0; (new_space, s0) = mem_sbrk bytes s in
      if new_space \<noteq> - 1 then
        do {
          s1 \<leftarrow> write_value (new_space + bytes - 8) (lsb_a 0 1) s0;
          s2 \<leftarrow> write_value (new_space + bytes - 16) (lsb_a (bytes - 16) 0) s1;
          s3 \<leftarrow> write_value (new_space - 8) (lsb_a (bytes - 16) 0) s2;
          let new_hdr = new_space - 8;
          prevBlk \<leftarrow> prev_blk s3 new_hdr;
          a \<leftarrow> get_allocated s3 prevBlk;
          if \<not> a then do { s4 \<leftarrow> coalesce new_hdr s3; Some (prevBlk, s4) }
          else do { s4 \<leftarrow> add_node new_hdr s3; Some (new_hdr, s4) }
        }
      else Some (0, s0))"

text \<open>
  The loop of \<open>first_fit\<close> follows \<open>next\<close> links until it meets a fitting block or the
  null pointer; on a cyclic list without a fitting block it never returns. The \<open>&&\<close> of
  its test reads the size only of a block whose allocation bit is clear.
\<close>

partial_function (option) first_fit_from :: "heap \<Rightarrow> size_t \<Rightarrow> addr \<Rightarrow> addr option" where
  "first_fit_from s sz start =
     (if start \<noteq> 0 then
        do {
          let bptr = start - 8;
          a \<leftarrow> get_allocated s bptr;
          fits \<leftarrow> (if \<not> a then do { bs \<leftarrow> get_size s bptr; Some (bs \<ge> sz) } else Some False);
          if fits then Some bptr
          else do { n \<leftarrow> load64 s start; first_fit_from s sz n }
        }
      else Some 0)"

definition first_fit :: "size_t \<Rightarrow> heap \<Rightarrow> addr option" where
  "first_fit sz s = first_fit_from s sz (first s)"

subsection \<open>The public operations\<close>

definition mm_init :: "heap \<Rightarrow> (bool \<times> heap) option" where
  "mm_init s =
     (let (start_heap, s0) = mem_sbrk 4096 s in
      if start_heap = - 1 then Some (False, s0)
      else do {
        s1 \<leftarrow> write_value start_heap (lsb_a 0 1) s0;
        s2 \<leftarrow> write_value (start_heap + 8) (lsb_a (4096 - 4 * 8) 0) s1;
        s3 \<leftarrow> write_value (start_heap + 4080) (lsb_a (4096 - 4 * 8) 0) s2;
        s4 \<leftarrow> write_value (start_heap + 4088) (lsb_a 0 1) s3;
        let s5 = s4\<lparr>first := start_heap + 16\<rparr>;
        s6 \<leftarrow> store64 (first s5) 0 s5;
        s7 \<leftarrow> store64 (first s6 + 8) 0 s6;
        Some (True, s7)
      })"

definition malloc :: "size_t \<Rightarrow> heap \<Rightarrow> (addr \<times> heap) option" where
  "malloc size0 s =
     (if size0 = 0 then Some (0, s)
      else
        let sz = align size0 in
        do {
          bptr \<leftarrow> first_fit sz s;
          if bptr \<noteq> 0 then do { s1 \<leftarrow> place bptr sz s; Some (bptr + 8, s1) }
          else
            let extendsize = (if sz + 16 > 4096 then sz + 16 else 4096) in
            do {
              (bptr, s1) \<leftarrow> expand_heap extendsize s;
              if bptr = 0 then Some (0, s1)
              else do { s2 \<leftarrow> place bptr sz s1; Some (bptr + 8, s2) }
            }
        })"

definition free :: "addr \<Rightarrow> heap \<Rightarrow> heap option" where
  "free ptr s =
     (if ptr = 0 then Some s
      else
        let hdr = ptr - 8 in
        do {
          a \<leftarrow> get_allocated s hdr;
          if \<not> a then Some s
          else do {
            sz \<leftarrow> get_size s hdr;
            s1 \<leftarrow> write_value hdr (lsb_a sz 0) s;
            sz1 \<leftarrow> get_size s1 hdr;
            sz2 \<leftarrow> get_size s1 hdr;
            s2 \<leftarrow> write_value (hdr + sz1 + 8) (lsb_a sz2 0) s1;
            coalesce hdr s2
          }
        })"

definition realloc :: "addr \<Rightarrow> size_t \<Rightarrow> heap \<Rightarrow> (addr \<times> heap) option" where
  "realloc oldptr size0 s =
     do {
       let oldptr_hdr = oldptr - 8;
       oldptr_size \<leftarrow> get_size s oldptr_hdr;
       if oldptr = 0 then malloc size0 s
       else if size0 = 0 then do { s1 \<leftarrow> free oldptr s; Some (0, s1) }
       else
         let needed_size = align size0 + 16 in
         if oldptr_size \<ge> needed_size then Some (oldptr, s)
         else do {
           (mallocPtr, s1) \<leftarrow> malloc size0 s;
           s2 \<leftarrow> mem_memcpy mallocPtr oldptr oldptr_size s1;
           s3 \<leftarrow> free oldptr s2;
           Some (mallocPtr, s3)
         }
     }"

definition calloc :: "size_t \<Rightarrow> size_t \<Rightarrow> heap \<Rightarrow> (addr \<times> heap) option" where
  "calloc nmemb size0 s =
     (let sz = size0 * nmemb in
      do {
        (ptr, s1) \<leftarrow> malloc sz s;
        if ptr \<noteq> 0 then do { s2 \<leftarrow> mem_memset ptr 0 sz s1; Some (ptr, s2) }
        else Some (ptr, s1)
      })"

section \<open>Loads and stores\<close>

lemma unat_add_nat: "unat (a::64 word) + n < 2 ^ 64 \<Longrightarrow> unat (a + of_nat n) = unat a + n"
  by (simp add: unat_word_ariths unat_of_nat mod_add_right_eq)

lemma unat_add_word: "unat (a::64 word) + unat b < 2 ^ 64 \<Longrightarrow> unat (a + b) = unat a + unat b"
  by (simp add: unat_word_ariths)

lemma unat_sub_word: "unat b \<le> unat (a::64 word) \<Longrightarrow> unat (a - b) = unat a - unat b"
  by (simp add: unat_sub word_le_nat_alt)

lemma word_at_put_same: "word_at (put_word a v m) a = v"
proof (rule bit_eqI)
  fix n :: nat
  assume "possible_bit TYPE(64 word) n"
  then have n: "n < 64" by (simp add: possible_bit_def)
  have w: "word_at (put_word a v m) a =
     ucast (ucast v :: 8 word) OR push_bit 8 (ucast (ucast (drop_bit 8 v) :: 8 word))
     OR push_bit 16 (ucast (ucast (drop_bit 16 v) :: 8 word))
     OR push_bit 24 (ucast (ucast (drop_bit 24 v) :: 8 word))
     OR push_bit 32 (ucast (ucast (drop_bit 32 v) :: 8 word))
     OR push_bit 40 (ucast (ucast (drop_bit 40 v) :: 8 word))
     OR push_bit 48 (ucast (ucast (drop_bit 48 v) :: 8 word))
     OR push_bit 56 (ucast (ucast (drop_bit 56 v) :: 8 word))"
    unfolding word_at_def put_word_def by simp
  consider "n < 8" | "8 \<le> n" "n < 16" | "16 \<le> n" "n < 24" | "24 \<le> n" "n < 32"
    | "32 \<le> n" "n < 40" | "40 \<le> n" "n < 48" | "48 \<le> n" "n < 56" | "56 \<le> n" "n < 64"
    using n by linarith
  then show "bit (word_at (put_word a v m) a) n = bit v n"
    unfolding w by cases (auto simp add: bit_simps)
qed

lemma put_word_outside:
  assumes "unat a + 8 \<le> 2 ^ 64" and "unat x < unat a \<or> unat a + 8 \<le> unat x"
  shows "put_word a v m x = m x"
proof -
  have "unat (a + of_nat i) = unat a + i" if "i < 8" for i
    using that assms(1) by (intro unat_add_nat) simp
  from this[of 1] this[of 2] this[of 3] this[of 4] this[of 5] this[of 6] this[of 7]
  have "x \<noteq> a" "x \<noteq> a + 1" "x \<noteq> a + 2" "x \<noteq> a + 3"
    "x \<noteq> a + 4" "x \<noteq> a + 5" "x \<noteq> a + 6" "x \<noteq> a + 7"
    using assms(2) by auto
  then show ?thesis by (simp add: put_word_def)
qed

lemma word_at_put_other:
  assumes "unat a + 8 \<le> 2 ^ 64" "unat b + 8 \<le> 2 ^ 64"
    and "unat a + 8 \<le> unat b \<or> unat b + 8 \<le> unat a"
  shows "word_at (put_word a v m) b = word_at m b"
proof -
  have "put_word a v m (b + of_nat i) = m (b + of_nat i)" if "i < 8" for i
    apply (rule put_word_outside[OF assms(1)])
    using that assms(2,3) by (auto simp: unat_add_nat)
  from this[of 0] this[of 1] this[of 2] this[of 3] this[of 4] this[of 5] this[of 6] this[of 7]
  show ?thesis
    by (simp add: word_at_def)
qed

lemma word_at_put_word:
  "unat a + 8 \<le> 2 ^ 64 \<Longrightarrow> unat b + 8 \<le> 2 ^ 64 \<Longrightarrow>
   a = b \<or> unat a + 8 \<le> unat b \<or> unat b + 8 \<le> unat a \<Longrightarrow>
   word_at (put_word a v m) b = (if a = b then v else word_at m b)"
  by (cases "a = b") (simp_all add: word_at_put_same word_at_put_other)

lemma word_at_zero: "word_at (\<lambda>_. 0) a = 0"
  by (simp add: word_at_def)

lemmas model_defs = mm_init_def malloc_def free_def realloc_def calloc_def first_fit_def
  expand_heap_def place_def split_def coalesce_def add_node_def remove_node_def
  prev_blk_def next_blk_def get_allocated_def get_size_def write_value_def lsb_a_def align_def
  mem_sbrk_def load64_def store64_def in_heap_def

section \<open>Concrete heaps\<close>

text \<open>
  An empty heap of zero bytes at address \<open>0x10000\<close> that may grow to \<open>0x20000\<close>, the
  heap \<open>mm_init\<close> makes of it, and heaps reached from there by a few calls.
\<close>

definition heap0 :: heap where
  "heap0 = \<lparr>mem = (\<lambda>_. 0), heap_lo = 0x10000, brk = 0x10000, heap_max = 0x20000, first = 0\<rparr>"

definition heap_init :: heap where
  "heap_init = snd (the (mm_init heap0))"

definition heap_a100 :: heap where
  "heap_a100 = snd (the (malloc 100 heap_init))"

definition heap_a16 :: heap where
  "heap_a16 = snd (the (malloc 16 heap_init))"

definition heap_holes :: heap where
  "heap_holes = the (do {
     (a, s1) \<leftarrow> malloc 16 heap_init; (b, s2) \<leftarrow> malloc 16 s1; (c, s3) \<leftarrow> malloc 16 s2;
     (d, s4) \<leftarrow> malloc 16 s3; (e, s5) \<leftarrow> malloc 16 s4;
     s6 \<leftarrow> free b s5; free d s6 })"

lemmas eval_simps = model_defs word_at_put_word word_at_zero first_fit_from.simps

lemma word_at_upd_outside:
  assumes "unat b + 8 \<le> 2 ^ 64" and "unat x < unat b \<or> unat b + 8 \<le> unat x"
  shows "word_at (m(x := c)) b = word_at m b"
proof -
  have "unat (b + of_nat i) = unat b + i" if "i < 8" for i
    using that assms(1) by (intro unat_add_nat) simp
  from this[of 1] this[of 2] this[of 3] this[of 4] this[of 5] this[of 6] this[of 7]
  have "x \<noteq> b" "x \<noteq> b + 1" "x \<noteq> b + 2" "x \<noteq> b + 3"
    "x \<noteq> b + 4" "x \<noteq> b + 5" "x \<noteq> b + 6" "x \<noteq> b + 7"
    using assms(2) by auto
  then show ?thesis by (simp add: word_at_def)
qed

lemma put_word_byte0: "put_word a v m a = ucast v"
  by (simp add: put_word_def)

section \<open>The free list as a list of nodes\<close>

text \<open>
  The free list is abstracted to the list of its node addresses, from \<open>first\<close> on. A
  node is the payload address of a free block: 16-byte aligned, not null, with its two
  link words inside the heap. \<open>seg m prv xs nxt\<close> says that in memory \<open>m\<close> the nodes
  \<open>xs\<close> are linked in this order, the first one's \<open>prev\<close> being \<open>prv\<close> and the last
  one's \<open>next\<close> being \<open>nxt\<close>.
\<close>

definition al8 :: "addr \<Rightarrow> bool" where "al8 x = (unat x mod 8 = 0)"
definition al16 :: "addr \<Rightarrow> bool" where "al16 x = (unat x mod 16 = 0)"

lemma unat_lt64: "unat (x :: 64 word) < 18446744073709551616"
  using unsigned_less[of x, where ?'a = nat] by simp

lemma al8_bound: "al8 x \<Longrightarrow> unat x + 8 \<le> 18446744073709551616"
  using unat_lt64[of x] unfolding al8_def by presburger

lemma al16_bound: "al16 x \<Longrightarrow> unat x + 16 \<le> 18446744073709551616"
  using unat_lt64[of x] unfolding al16_def by presburger

lemma al16_al8: "al16 x \<Longrightarrow> al8 x"
  unfolding al16_def al8_def by presburger

lemma unat_plus8: "al16 x \<Longrightarrow> unat (x + 8) = unat x + 8"
  using al16_bound[of x] unat_add_nat[of x 8] by simp

lemma al8_plus8: "al16 x \<Longrightarrow> al8 (x + 8)"
  using unat_plus8[of x] unfolding al16_def al8_def by presburger

lemma al16_plus8_neq: 
  assumes "al16 x" "al16 y" shows "x + 8 \<noteq> y"
proof
  assume "x + 8 = y"
  then have "unat y = unat x + 8" using unat_plus8[OF assms(1)] by simp
  then show False using assms unfolding al16_def by presburger
qed

lemma word_at_put_al8:
  assumes "al8 a" "al8 b"
  shows "word_at (put_word a v m) b = (if a = b then v else word_at m b)"
proof (rule word_at_put_word)
  show "unat a + 8 \<le> 2 ^ 64" using al8_bound[OF assms(1)] by simp
  show "unat b + 8 \<le> 2 ^ 64" using al8_bound[OF assms(2)] by simp
  show "a = b \<or> unat a + 8 \<le> unat b \<or> unat b + 8 \<le> unat a"
  proof (cases "a = b")
    case False
    then have "unat a \<noteq> unat b" by (simp add: word_unat_eq_iff)
    then have "unat a + 8 \<le> unat b \<or> unat b + 8 \<le> unat a"
      using assms unfolding al8_def by presburger
    then show ?thesis by simp
  qed simp
qed


fun seg :: "(addr \<Rightarrow> 8 word) \<Rightarrow> addr \<Rightarrow> addr list \<Rightarrow> addr \<Rightarrow> bool" where
  "seg m prv [] nxt = True"
| "seg m prv (x # xs) nxt =
     (word_at m (x + 8) = prv \<and> word_at m x = (case xs of [] \<Rightarrow> nxt | y # _ \<Rightarrow> y) \<and> seg m x xs nxt)"

definition node_ok :: "heap \<Rightarrow> addr \<Rightarrow> bool" where
  "node_ok s x = (x \<noteq> 0 \<and> al16 x \<and> in_heap s x 16)"

definition free_list :: "heap \<Rightarrow> addr list \<Rightarrow> bool" where
  "free_list s xs =
     (seg (mem s) 0 xs 0 \<and> first s = (case xs of [] \<Rightarrow> 0 | x # _ \<Rightarrow> x) \<and> distinct xs \<and>
      list_all (node_ok s) xs)"

definition hd0 :: "addr list \<Rightarrow> addr \<Rightarrow> addr" where
  "hd0 xs d = (case xs of [] \<Rightarrow> d | y # _ \<Rightarrow> y)"

definition last0 :: "addr list \<Rightarrow> addr \<Rightarrow> addr" where
  "last0 xs d = (if xs = [] then d else last xs)"

lemma seg_append:
  "seg m prv (ys @ zs) nxt = (seg m prv ys (hd0 zs nxt) \<and> seg m (last0 ys prv) zs nxt)"
  by (induction ys arbitrary: prv) (auto simp: hd0_def last0_def split: list.splits)

lemma seg_put_frame:
  assumes "al8 a" "list_all al16 xs" "a \<notin> set xs" "a \<notin> (\<lambda>x. x + 8) ` set xs"
  shows "seg (put_word a v m) prv xs nxt = seg m prv xs nxt"
  using assms
  by (induction xs arbitrary: prv) (auto simp: word_at_put_al8 al16_al8 al8_plus8)

lemma node_ok_loads:
  assumes "node_ok s x"
  shows "load64 s x = Some (word_at (mem s) x)" "load64 s (x + 8) = Some (word_at (mem s) (x + 8))"
  using assms unat_plus8[of x] by (auto simp: node_ok_def load64_def in_heap_def)

lemma node_ok_stores:
  assumes "node_ok s x"
  shows "store64 x v s = Some (s\<lparr>mem := put_word x v (mem s)\<rparr>)"
    "store64 (x + 8) v s = Some (s\<lparr>mem := put_word (x + 8) v (mem s)\<rparr>)"
  using assms unat_plus8[of x] by (auto simp: node_ok_def store64_def in_heap_def)

lemma node_ok_upd [simp]:
  "node_ok (s\<lparr>mem := m\<rparr>) x = node_ok s x" "node_ok (s\<lparr>first := f\<rparr>) x = node_ok s x"
  by (simp_all add: node_ok_def in_heap_def)


lemma al16_neq_plus8 [simp]: "al16 x \<Longrightarrow> x + 8 \<noteq> x" "al16 x \<Longrightarrow> x \<noteq> x + 8"
  using al16_plus8_neq[of x x] by auto

lemma seg_set_next:
  assumes "seg m prv (ys @ [p]) c" "distinct (ys @ [p])" "list_all al16 (ys @ [p])"
  shows "seg (put_word p n m) prv (ys @ [p]) n"
  using assms
proof (induction ys arbitrary: prv)
  case Nil
  then show ?case by (simp add: word_at_put_al8 al16_al8 al8_plus8)
next
  case (Cons y ys)
  then have "y \<noteq> p" "p \<noteq> y + 8" "al16 y" "al16 p"
    using al16_plus8_neq[of y p] by auto
  with Cons show ?case
    by (cases ys) (auto simp: word_at_put_al8 al16_al8 al8_plus8)
qed

lemma seg_set_prev:
  assumes "seg m c (n # zs) nxt" "distinct (n # zs)" "list_all al16 (n # zs)"
  shows "seg (put_word (n + 8) p m) p (n # zs) nxt"
proof -
  have "seg (put_word (n + 8) p m) n zs nxt = seg m n zs nxt"
    using assms al16_plus8_neq[of n] 
    by (intro seg_put_frame) (auto simp: al8_plus8 list_all_iff)
  then show ?thesis
    using assms by (auto simp: word_at_put_al8 al16_al8 al8_plus8)
qed

definition unlink_mem :: "(addr \<Rightarrow> 8 word) \<Rightarrow> addr \<Rightarrow> addr \<Rightarrow> (addr \<Rightarrow> 8 word)" where
  "unlink_mem m p n =
     (let m1 = (if p \<noteq> 0 then put_word p n m else m)
      in if n \<noteq> 0 then put_word (n + 8) p m1 else m1)"

definition link_mem :: "(addr \<Rightarrow> 8 word) \<Rightarrow> addr \<Rightarrow> addr \<Rightarrow> (addr \<Rightarrow> 8 word)" where
  "link_mem m c f =
     (let m2 = put_word (c + 8) 0 (put_word c f m)
      in if f \<noteq> 0 then put_word (f + 8) c m2 else m2)"

lemma remove_node_eq:
  assumes c: "node_ok s c"
    and p: "word_at (mem s) (c + 8) = p" "p \<noteq> 0 \<longrightarrow> node_ok s p"
    and n: "word_at (mem s) c = n" "n \<noteq> 0 \<longrightarrow> node_ok s n"
  shows "remove_node (c - 8) s =
           Some (s\<lparr>mem := unlink_mem (mem s) p n, first := (if p = 0 then n else first s)\<rparr>)"
proof -
  have l: "load64 s (c + 8) = Some p" "load64 s c = Some n"
    using node_ok_loads[OF c] p n by simp_all
  have alc: "al16 c" using c by (simp add: node_ok_def)
  show ?thesis
  proof (cases "p = 0")
    case p0: True
    show ?thesis
    proof (cases "n = 0")
      case True
      with p0 l show ?thesis by (simp add: remove_node_def unlink_mem_def)
    next
      case False
      then have nn: "node_ok s n" using n by simp
      then have "al16 n" by (simp add: node_ok_def)
      then have "word_at (put_word (n + 8) 0 (mem s)) c = n"
        using alc n al16_plus8_neq[of n c] by (simp add: word_at_put_al8 al16_al8 al8_plus8)
      with p0 False l c show ?thesis
        by (simp add: remove_node_def unlink_mem_def node_ok_stores[OF nn] load64_def in_heap_def node_ok_def)
    qed
  next
    case pn: False
    then have pp: "node_ok s p" using p by simp
    then have alp: "al16 p" by (simp add: node_ok_def)
    show ?thesis
    proof (cases "n = 0")
      case True
      with pn l show ?thesis by (simp add: remove_node_def unlink_mem_def node_ok_stores[OF pp])
    next
      case False
      then have nn: "node_ok s n" using n by simp
      have "word_at (put_word p n (mem s)) (c + 8) = p"
        using alc alp p al16_plus8_neq[of c p] by (simp add: word_at_put_al8 al16_al8 al8_plus8)
      moreover have "in_heap s (c + 8) 8" 
        using c unat_plus8[OF alc] by (simp add: node_ok_def in_heap_def)
      moreover have "node_ok (s\<lparr>mem := put_word p n (mem s)\<rparr>) n" using nn by simp
      ultimately show ?thesis using pn False l 
        by (simp add: remove_node_def unlink_mem_def node_ok_stores[OF pp] node_ok_stores load64_def in_heap_def)
    qed
  qed
qed

lemma free_list_nodes:
  assumes "free_list s (ys @ c # zs)"
  shows "node_ok s c" "word_at (mem s) (c + 8) = last0 ys 0" "word_at (mem s) c = hd0 zs 0"
    "last0 ys 0 \<noteq> 0 \<longrightarrow> node_ok s (last0 ys 0)" "hd0 zs 0 \<noteq> 0 \<longrightarrow> node_ok s (hd0 zs 0)"
    "(last0 ys 0 = 0) = (ys = [])" "(hd0 zs 0 = 0) = (zs = [])"
  using assms
  by (auto simp: free_list_def seg_append hd0_def last0_def list_all_iff node_ok_def split: list.splits)

lemma remove_node_free_list:
  assumes fl: "free_list s (ys @ c # zs)"
  shows "free_list (s\<lparr>mem := unlink_mem (mem s) (last0 ys 0) (hd0 zs 0),
                      first := (if last0 ys 0 = 0 then hd0 zs 0 else first s)\<rparr>) (ys @ zs)"
proof -
  let ?p = "last0 ys 0" and ?n = "hd0 zs 0" and ?m = "mem s"
  have al: "list_all al16 (ys @ c # zs)" and d: "distinct (ys @ c # zs)"
    using fl by (auto simp: free_list_def list_all_iff node_ok_def)
  have sg: "seg ?m 0 ys c" "seg ?m c zs 0"
    using fl by (auto simp: free_list_def seg_append hd0_def last0_def)
  define m1 where "m1 = (if ?p \<noteq> 0 then put_word ?p ?n ?m else ?m)"
  define m2 where "m2 = (if ?n \<noteq> 0 then put_word (?n + 8) ?p m1 else m1)"
  have m2: "unlink_mem ?m ?p ?n = m2" by (simp add: unlink_mem_def m1_def m2_def)
  have pz: "(?p = 0) = (ys = [])" and nz: "(?n = 0) = (zs = [])"
    using free_list_nodes[OF fl] by auto
  have s1: "seg m1 0 ys ?n \<and> seg m1 c zs 0"
  proof (cases "ys = []")
    case True
    then show ?thesis using sg pz by (simp add: m1_def)
  next
    case False
    then obtain ys' p where ys: "ys = ys' @ [p]" by (metis rev_exhaust)
    then have p: "?p = p" by (simp add: last0_def)
    have "seg (put_word p ?n ?m) 0 (ys' @ [p]) ?n"
      using sg(1) al d unfolding ys by (intro seg_set_next[where c = c]) auto
    moreover have "seg (put_word p ?n ?m) c zs 0 = seg ?m c zs 0"
      using al d al16_plus8_neq[of _ p] unfolding ys
      by (intro seg_put_frame) (auto simp: al16_al8 list_all_iff)
    ultimately show ?thesis using sg pz False p ys by (simp add: m1_def)
  qed
  have s2: "seg m2 0 ys ?n \<and> seg m2 ?p zs 0"
  proof (cases zs)
    case Nil
    then show ?thesis using s1 nz by (simp add: m2_def)
  next
    case (Cons n zs')
    then have n: "?n = n" by (simp add: hd0_def)
    have "seg (put_word (n + 8) ?p m1) ?p (n # zs') 0"
      using s1 al d unfolding Cons by (intro seg_set_prev[where c = c]) auto
    moreover have "seg (put_word (n + 8) ?p m1) 0 ys n = seg m1 0 ys n"
      using al d al16_plus8_neq[of n] unfolding Cons
      by (intro seg_put_frame) (auto simp: al8_plus8 list_all_iff)
    ultimately show ?thesis using s1 nz n Cons by (simp add: m2_def)
  qed
  have f: "(if ?p = 0 then ?n else first s) = (case ys @ zs of [] \<Rightarrow> 0 | x # _ \<Rightarrow> x)"
    using fl pz by (cases ys) (auto simp: free_list_def hd0_def)
  show ?thesis
    unfolding free_list_def m2 using s2 f fl
    by (auto simp: seg_append free_list_def list_all_iff)
qed

lemma heap_holes_list: "free_list heap_holes [0x10070, 0x10030, 0x100B0]"
  by (simp add: heap_holes_def heap_init_def heap0_def eval_simps free_list_def node_ok_def al16_def)

lemma in_heap_null_hdr: "\<not> in_heap s (- 8) 8"
  by (simp add: in_heap_def) (use unsigned_less[of "brk s", where ?'a = nat] in simp)

lemma realloc_moves:
  "realloc p n s = Some (r, s') \<Longrightarrow> p \<noteq> 0 \<Longrightarrow> n \<noteq> 0 \<Longrightarrow> get_size s (p - 8) = Some c \<Longrightarrow>
   \<not> align n + 16 \<le> c \<Longrightarrow> \<exists>s1. malloc n s = Some (r, s1)"
  by (auto simp: realloc_def Let_def split: bind_splits prod.splits)

lemma fill_bytes_0_bind: "Option.bind x (fill_bytes 0 d c) = x"
  by (cases x) simp_all

lemma fill_bytes_1: "fill_bytes (Suc 0) d c = store8 d c"
  by (rule ext) (simp add: fill_bytes_0_bind)

lemma fill_bytes_2:
  "fill_bytes 2 dst c s = do { s1 \<leftarrow> store8 dst c s; store8 (dst + 1) c s1 }"
  by (simp add: numeral_2_eq_2 fill_bytes_1)

section \<open>The heap as a list of blocks\<close>

text \<open>
  Between the prologue word at \<open>heap_lo\<close> and the epilogue word at \<open>brk - 8\<close> the heap
  is a sequence of blocks, abstracted to the list of their payload sizes and allocation
  flags. \<open>chain m a bs\<close> says that memory \<open>m\<close> holds the blocks \<open>bs\<close> from address
  \<open>a\<close> on, each with a header and a footer that carry its size and flag.
  \<open>heap_rep s bs fl\<close> is the representation invariant of the allocator: the heap \<open>s\<close>
  holds the blocks \<open>bs\<close>, and its free list is \<open>fl\<close>, the payloads of the free blocks.
\<close>

definition tag :: "nat \<Rightarrow> bool \<Rightarrow> 64 word" where
  "tag sz al = lsb_a (of_nat sz) (if al then 1 else 0)"

fun chain :: "(addr \<Rightarrow> 8 word) \<Rightarrow> nat \<Rightarrow> (nat \<times> bool) list \<Rightarrow> bool" where
  "chain m a [] = True"
| "chain m a ((sz, al) # bs) =
     (16 \<le> sz \<and> 16 dvd sz \<and> word_at m (of_nat a) = tag sz al \<and>
      word_at m (of_nat (a + sz + 8)) = tag sz al \<and> chain m (a + sz + 16) bs)"

fun span :: "(nat \<times> bool) list \<Rightarrow> nat" where
  "span [] = 0"
| "span ((sz, al) # bs) = sz + 16 + span bs"

fun free_nodes :: "nat \<Rightarrow> (nat \<times> bool) list \<Rightarrow> nat list" where
  "free_nodes a [] = []"
| "free_nodes a ((sz, al) # bs) = (if al then [] else [a + 8]) @ free_nodes (a + sz + 16) bs"

fun no_adj :: "(nat \<times> bool) list \<Rightarrow> bool" where
  "no_adj ((s1, a1) # (s2, a2) # bs) = ((a1 \<or> a2) \<and> no_adj ((s2, a2) # bs))"
| "no_adj bs = True"

definition heap_rep :: "heap \<Rightarrow> (nat \<times> bool) list \<Rightarrow> addr list \<Rightarrow> bool" where
  "heap_rep s bs fl =
     (0 < unat (heap_lo s) \<and> 16 dvd unat (heap_lo s) \<and> bs \<noteq> [] \<and>
      unat (brk s) = unat (heap_lo s) + 16 + span bs \<and> unat (brk s) \<le> unat (heap_max s) \<and>
      word_at (mem s) (heap_lo s) = 1 \<and> word_at (mem s) (brk s - 8) = 1 \<and>
      chain (mem s) (unat (heap_lo s) + 8) bs \<and> free_list s fl \<and>
      set fl = of_nat ` set (free_nodes (unat (heap_lo s) + 8) bs))"

lemma heap_init_rep: "heap_rep heap_init [(4064, False)] [0x10010]"
  by (simp add: heap_init_def heap0_def eval_simps heap_rep_def free_list_def node_ok_def al16_def tag_def)

lemma al16_add: "al16 a \<Longrightarrow> al16 b \<Longrightarrow> al16 (a + b)"
  unfolding al16_def by (simp add: unat_word_ariths mod_mod_cancel, presburger)

lemma al16_of_nat: "16 dvd n \<Longrightarrow> al16 (of_nat n)"
  unfolding al16_def by (simp add: unat_of_nat mod_mod_cancel)

lemma al16_diff: "al16 a \<Longrightarrow> al16 b \<Longrightarrow> al16 (a - b)"
  unfolding al16_def by (simp add: unat_sub_if', presburger)

lemma al16_align: "al16 (align x)"
  unfolding al16_def align_def by (simp add: unat_word_ariths mod_mod_cancel)

lemma al16_numeral [simp]: "al16 0" "al16 16" "al16 4096"
  by (simp_all add: al16_def)

lemma dvd16_even: "16 dvd sz \<Longrightarrow> even (sz :: nat)"
  by presburger

lemma tag_size: "16 dvd sz \<Longrightarrow> tag sz al AND NOT 1 = of_nat sz"
  unfolding tag_def lsb_a_def
  apply (rule bit_eqI)
  subgoal for n
    using dvd16_even[of sz]
    by (cases n) (auto simp: bit_simps bit_0 even_and_iff even_or_iff)
  done

lemma tag_alloc: "16 dvd sz \<Longrightarrow> (tag sz al AND 1 \<noteq> 0) = al"
  unfolding tag_def lsb_a_def
  using dvd16_even[of sz]
  by (auto simp: and_one_eq even_or_iff mod_2_eq_odd)

lemma chain_span_mod: "chain m a bs \<Longrightarrow> 16 dvd span bs"
proof (induction m a bs rule: chain.induct)
  case (2 m a sz al bs)
  then have "16 dvd sz" "16 dvd span bs" by auto
  then show ?case by (simp add: dvd_add)
qed simp

lemma chain_last_footer:
  "chain m a bs \<Longrightarrow> bs \<noteq> [] \<Longrightarrow>
   \<exists>sz al. 16 dvd sz \<and> word_at m (of_nat (a + span bs - 8)) = tag sz al"
proof (induction m a bs rule: chain.induct)
  case (2 m a sz al bs)
  show ?case
  proof (cases bs)
    case Nil
    with 2 show ?thesis by (auto simp: add.commute add.left_commute intro!: exI[of _ sz] exI[of _ al])
  next
    case (Cons b bs')
    with 2 obtain sz' al' where "16 dvd sz'"
      "word_at m (of_nat (a + sz + 16 + span bs - 8)) = tag sz' al'" by auto
    moreover have "a + sz + 16 + span bs - 8 = a + span ((sz, al) # bs) - 8" by simp
    ultimately show ?thesis by metis
  qed
qed simp

lemma free_nodes_chain:
  "x \<in> set (free_nodes a bs) \<Longrightarrow> chain m a bs \<Longrightarrow>
   \<exists>sz. 16 \<le> sz \<and> 16 dvd sz \<and> word_at m (of_nat (x - 8)) = tag sz False \<and>
        word_at m (of_nat (x + sz)) = tag sz False \<and> a + 8 \<le> x \<and> x + sz + 8 \<le> a + span bs"
proof (induction a bs rule: free_nodes.induct)
  case (2 a sz al bs)
  show ?case
  proof (cases "x = a + 8 \<and> \<not> al")
    case True
    with 2(3) show ?thesis by (auto simp: algebra_simps intro!: exI[of _ sz])
  next
    case False
    with 2 have "x \<in> set (free_nodes (a + sz + 16) bs)" "chain m (a + sz + 16) bs"
      by (auto split: if_splits)
    from 2(1)[OF this] show ?thesis by auto
  qed
qed simp

section \<open>First fit and heap extension on a well-formed heap\<close>

lemma unat_of_nat64: "n < 18446744073709551616 \<Longrightarrow> unat (of_nat n :: 64 word) = n"
  by (simp add: unat_of_nat)

lemma al8_add: "al8 a \<Longrightarrow> al8 b \<Longrightarrow> al8 (a + b)"
  unfolding al8_def by (simp add: unat_word_ariths mod_mod_cancel, presburger)

lemma al8_diff: "al8 a \<Longrightarrow> al8 b \<Longrightarrow> al8 (a - b)"
  unfolding al8_def by (simp add: unat_sub_if', presburger)

lemma al8_numeral [simp]: "al8 0" "al8 8" "al8 16"
  by (simp_all add: al8_def)

lemma al16_and_not1: "al16 w \<Longrightarrow> w AND NOT 1 = w"
proof (rule bit_eqI)
  fix n assume "al16 w"
  then have "even (unat w)" unfolding al16_def by presburger
  then have "even w" using even_of_nat[of "unat w", where ?'a = "64 word"] by simp
  then show "bit (w AND NOT 1) n = bit w n"
    by (cases n) (auto simp: bit_simps bit_0 even_and_iff)
qed

definition free_hdr :: "heap \<Rightarrow> addr \<Rightarrow> bool" where
  "free_hdr s x = (in_heap s (x - 8) 8 \<and> x - 8 \<noteq> 0 \<and> word_at (mem s) (x - 8) AND 1 = 0)"

definition fits :: "heap \<Rightarrow> size_t \<Rightarrow> addr \<Rightarrow> bool" where
  "fits s sz x = (sz \<le> word_at (mem s) (x - 8) AND NOT 1)"

lemma first_fit_from_list:
  assumes "seg (mem s) prv xs 0" "list_all (node_ok s) xs" "list_all (free_hdr s) xs"
  shows "first_fit_from s sz (hd0 xs 0) = Some (case find (fits s sz) xs of None \<Rightarrow> 0 | Some x \<Rightarrow> x - 8)"
  using assms
proof (induction xs arbitrary: prv)
  case Nil
  then show ?case by (subst first_fit_from.simps) (simp add: hd0_def)
next
  case (Cons x xs)
  then have x: "node_ok s x" "free_hdr s x" by auto
  then have l: "load64 s x = Some (hd0 xs 0)"
    using Cons.prems(1) node_ok_loads[of s x] by (simp add: hd0_def)
  have ih: "first_fit_from s sz (hd0 xs 0) = Some (case find (fits s sz) xs of None \<Rightarrow> 0 | Some x \<Rightarrow> x - 8)"
    using Cons by auto
  show ?case
    using x l ih
    by (subst first_fit_from.simps)
      (simp add: hd0_def node_ok_def free_hdr_def fits_def get_allocated_def get_size_def load64_def)
qed

lemma heap_rep_brk_al16: "heap_rep s bs fl \<Longrightarrow> al16 (brk s)"
  using chain_span_mod[of "mem s" _ bs] unfolding heap_rep_def al16_def
  by (auto simp: mod_eq_0_iff_dvd dvd_add)

lemma heap_rep_free_hdr:
  assumes "heap_rep s bs fl" "x \<in> set fl"
  shows "free_hdr s x"
proof -
  let ?lo = "unat (heap_lo s)"
  have "set fl = of_nat ` set (free_nodes (?lo + 8) bs)"
    using assms(1) by (simp add: heap_rep_def)
  with assms(2) obtain n where n: "x = of_nat n" "n \<in> set (free_nodes (?lo + 8) bs)"
    by blast
  have c: "chain (mem s) (?lo + 8) bs" and b: "unat (brk s) = ?lo + 16 + span bs" and lo: "0 < ?lo"
    using assms(1) by (simp_all add: heap_rep_def)
  from free_nodes_chain[OF n(2) c] obtain sz where sz0: "16 dvd sz"
    "word_at (mem s) (of_nat (n - 8)) = tag sz False" "?lo + 8 + 8 \<le> n" "n + sz + 8 \<le> ?lo + 8 + span bs"
    by blast
  have sz: "16 dvd sz" "word_at (mem s) (of_nat (n - 8)) = tag sz False" "?lo + 16 \<le> n"
    "n + sz + 8 \<le> ?lo + 8 + span bs"
    using sz0 by simp_all
  have le: "n \<le> unat (brk s)" using sz(4) b by linarith
  have lt: "n - 8 < 18446744073709551616"
    using le unat_lt64[of "brk s"] by (meson diff_le_self le_less_trans)
  have x8: "x - 8 = of_nat (n - 8)" using sz(3) n(1) by (simp add: of_nat_diff)
  have u: "unat (x - 8) = n - 8" unfolding x8 using lt by (rule unat_of_nat64)
  have "word_at (mem s) (x - 8) AND 1 = 0"
    using tag_alloc[OF sz(1), of False] sz(2) x8 by simp
  moreover have "x - 8 \<noteq> 0"
  proof
    assume "x - 8 = 0"
    then have "unat (x - 8) = 0" by simp
    with u sz(3) lo show False by linarith
  qed
  moreover have "unat (heap_lo s) \<le> n - 8" using sz(3) by linarith
  moreover have "n - 8 + 8 \<le> unat (brk s)" using sz(3) le by linarith
  ultimately show ?thesis
    unfolding free_hdr_def in_heap_def u by blast
qed

lemma heap_rep_first_fit:
  assumes "heap_rep s bs fl"
  shows "first_fit sz s = Some (case find (fits s sz) fl of None \<Rightarrow> 0 | Some x \<Rightarrow> x - 8)"
proof -
  have fl: "free_list s fl" using assms by (simp add: heap_rep_def)
  then have "first s = hd0 fl 0" by (simp add: free_list_def hd0_def)
  moreover have "list_all (free_hdr s) fl"
    using heap_rep_free_hdr[OF assms] by (simp add: list_all_iff)
  ultimately show ?thesis
    using fl first_fit_from_list[of s 0 fl sz] by (simp add: first_fit_def free_list_def)
qed

lemma last_footer_size:
  assumes "heap_rep s bs fl"
  shows "al16 (word_at (mem s) (brk s - 16) AND NOT 1)"
proof -
  let ?lo = "unat (heap_lo s)"
  have c: "chain (mem s) (?lo + 8) bs" "bs \<noteq> []" and b: "unat (brk s) = ?lo + 16 + span bs"
    using assms by (auto simp: heap_rep_def)
  from chain_last_footer[OF c] obtain sz al where sz: "16 dvd sz"
    "word_at (mem s) (of_nat (?lo + 8 + span bs - 8)) = tag sz al" by auto
  have "of_nat (unat (brk s)) = brk s" by simp
  then have "brk s = of_nat (?lo + 16 + span bs)" unfolding b by simp
  then have e: "brk s - 16 = of_nat (?lo + 8 + span bs - 8)" by simp
  show ?thesis unfolding e sz(2) tag_size[OF sz(1)] by (rule al16_of_nat[OF sz(1)])
qed

lemma expand_heap_aligned:
  assumes hr: "heap_rep s bs fl" and eh: "expand_heap e s = Some (bp, s1)" and bp: "bp \<noteq> 0"
  shows "al16 (bp + 8)"
proof -
  let ?B = "brk s" and ?b = "align e"
  have B: "al16 ?B" by (rule heap_rep_brk_al16[OF hr])
  have b: "al16 ?b" by (rule al16_align)
  have a8: "al8 (?B - 8)" "al8 (?B - 16)" "al8 (?B + ?b - 8)" "al8 (?B + ?b - 16)"
    using B b al16_al8[of ?B] al16_al8[of ?b] by (auto intro!: al8_diff al8_add)
  define m3 where "m3 = put_word (?B - 8) (?b - 16) (put_word (?B + ?b - 16) (?b - 16) (put_word (?B + ?b - 8) 1 (mem s)))"
  have w: "word_at m3 (?B - 16) = ?b - 16 \<or> word_at m3 (?B - 16) = 1 \<or> word_at m3 (?B - 16) = word_at (mem s) (?B - 16)"
    unfolding m3_def using a8 by (simp add: word_at_put_al8)
  have sz: "al16 (word_at m3 (?B - 16) AND NOT 1)"
    using w last_footer_size[OF hr] b al16_and_not1[of "?b - 16"] al16_diff[of ?b 16]
    by auto
  from eh bp have "bp = ?B - 8 \<or> bp = ?B - 8 - (word_at m3 (?B - 16) AND NOT 1) - 16"
    unfolding expand_heap_def mem_sbrk_def m3_def Let_def
    by (auto simp: prev_blk_def get_size_def write_value_def lsb_a_def store64_def load64_def
        split: if_splits bind_splits)
  then show ?thesis
  proof
    assume "bp = ?B - 8"
    then have "bp + 8 = ?B" by simp
    then show ?thesis using B by simp
  next
    assume "bp = ?B - 8 - (word_at m3 (?B - 16) AND NOT 1) - 16"
    then have e: "bp + 8 = ?B - (word_at m3 (?B - 16) AND NOT 1) - 16" by simp
    show ?thesis unfolding e by (rule al16_diff[OF al16_diff[OF B sz]]) simp
  qed
qed

section \<open>Block lists: tags, spans and node addresses\<close>

lemma al8_of_nat: "8 dvd n \<Longrightarrow> al8 (of_nat n)"
  unfolding al8_def by (simp add: unat_of_nat mod_mod_cancel)

lemma of_nat_inj64:
  "x < 18446744073709551616 \<Longrightarrow> y < 18446744073709551616 \<Longrightarrow> ((of_nat x :: 64 word) = of_nat y) = (x = y)"
  by (metis unat_of_nat64)

lemma rd_wr:
  assumes "8 dvd x" "8 dvd y" "x < 18446744073709551616" "y < 18446744073709551616"
  shows "word_at (put_word (of_nat x) v m) (of_nat y) = (if x = y then v else word_at m (of_nat y))"
  using assms by (simp add: word_at_put_al8 al8_of_nat of_nat_inj64)

fun tags :: "nat \<Rightarrow> (nat \<times> bool) list \<Rightarrow> nat set" where
  "tags a [] = {}"
| "tags a ((sz, al) # bs) = {a, a + sz + 8} \<union> tags (a + sz + 16) bs"

definition wfb :: "(nat \<times> bool) list \<Rightarrow> bool" where
  "wfb bs = list_all (\<lambda>(sz, al). 16 \<le> sz \<and> 16 dvd sz) bs"

lemma wfb_simps [simp]:
  "wfb []" "wfb ((sz, al) # bs) = (16 \<le> sz \<and> 16 dvd sz \<and> wfb bs)" "wfb (xs @ ys) = (wfb xs \<and> wfb ys)"
  by (simp_all add: wfb_def)

lemma chain_wfb: "chain m a bs \<Longrightarrow> wfb bs"
  by (induction m a bs rule: chain.induct) auto

lemma span_append [simp]: "span (xs @ ys) = span xs + span ys"
  by (induction xs) auto

lemma wfb_span_dvd: "wfb bs \<Longrightarrow> 16 dvd span bs"
  by (induction bs) (auto simp: dvd_add)

lemma tags_append: "tags a (xs @ ys) = tags a xs \<union> tags (a + span xs) ys"
  by (induction a xs rule: tags.induct) (auto simp: add.assoc)

lemma free_nodes_append: "free_nodes a (xs @ ys) = free_nodes a xs @ free_nodes (a + span xs) ys"
  by (induction a xs rule: free_nodes.induct) (auto simp: add.assoc)

lemma chain_append: "chain m a (xs @ ys) = (chain m a xs \<and> chain m (a + span xs) ys)"
  by (induction m a xs rule: chain.induct) (auto simp: add.assoc)

lemma tags_range: "t \<in> tags a bs \<Longrightarrow> a \<le> t \<and> t + 8 \<le> a + span bs"
  by (induction a bs arbitrary: t rule: tags.induct) fastforce+

lemma tags_dvd: "wfb bs \<Longrightarrow> 8 dvd a \<Longrightarrow> t \<in> tags a bs \<Longrightarrow> 8 dvd t"
proof (induction a bs rule: tags.induct)
  case (2 a sz al bs)
  then have "8 dvd sz" by (auto elim: dvd_trans[rotated])
  then have "8 dvd a + sz + 8" "8 dvd a + sz + 16" using 2(3) by (simp_all add: dvd_add)
  with 2 show ?case by auto
qed simp

lemma nodes_range: "wfb bs \<Longrightarrow> n \<in> set (free_nodes a bs) \<Longrightarrow> a + 8 \<le> n \<and> n + 24 \<le> a + span bs"
  by (induction a bs rule: free_nodes.induct) (fastforce split: if_splits)+

lemma nodes_dvd: "wfb bs \<Longrightarrow> 16 dvd a + 8 \<Longrightarrow> n \<in> set (free_nodes a bs) \<Longrightarrow> 16 dvd n"
proof (induction a bs rule: free_nodes.induct)
  case (2 a sz al bs)
  then have "16 dvd a + 8" "16 dvd sz" by auto
  then have "16 dvd a + sz + 16 + 8" by presburger
  with 2 show ?case by (auto split: if_splits)
qed simp

lemma nodes_not_tags:
  "wfb bs \<Longrightarrow> n \<in> set (free_nodes a bs) \<Longrightarrow> n \<notin> tags a bs \<and> n + 8 \<notin> tags a bs"
proof (induction a bs rule: free_nodes.induct)
  case (2 a sz al bs)
  show ?case
  proof (cases "n = a + 8 \<and> \<not> al")
    case True
    then have "n \<notin> tags (a + sz + 16) bs" "n + 8 \<notin> tags (a + sz + 16) bs"
      using tags_range[of n "a + sz + 16" bs] tags_range[of "n + 8" "a + sz + 16" bs] "2.prems"(1)
      by auto
    moreover have "16 \<le> sz" using "2.prems" by simp
    ultimately show ?thesis using True by auto
  next
    case False
    with "2.prems" have n: "n \<in> set (free_nodes (a + sz + 16) bs)" "wfb bs" by (auto split: if_splits)
    from nodes_range[OF n(2,1)] "2.IH"[OF n(2,1)] show ?thesis by auto
  qed
qed simp

lemma distinct_free_nodes: "wfb bs \<Longrightarrow> distinct (free_nodes a bs)"
proof (induction a bs rule: free_nodes.induct)
  case (2 a sz al bs)
  then show ?case using nodes_range[of bs "a + 8" "a + sz + 16"] by (auto split: if_splits)
qed simp

lemma chain_cong:
  "\<forall>t\<in>tags a bs. word_at m' (of_nat t) = word_at m (of_nat t) \<Longrightarrow> chain m' a bs = chain m a bs"
  by (induction m a bs rule: chain.induct) (auto simp: algebra_simps)

section \<open>Frames: what the list operations leave unchanged\<close>

definition lfields :: "addr list \<Rightarrow> addr set" where
  "lfields xs = set xs \<union> (\<lambda>x. x + 8) ` set xs"

definition same_except :: "heap \<Rightarrow> heap \<Rightarrow> addr set \<Rightarrow> bool" where
  "same_except s s' X =
     (heap_lo s' = heap_lo s \<and> brk s' = brk s \<and> heap_max s' = heap_max s \<and>
      (\<forall>w. al8 w \<longrightarrow> w \<notin> X \<longrightarrow> word_at (mem s') w = word_at (mem s) w))"

definition same_bounds :: "heap \<Rightarrow> heap \<Rightarrow> bool" where
  "same_bounds s s' = (heap_lo s' = heap_lo s \<and> brk s' = brk s \<and> heap_max s' = heap_max s)"

lemma same_except_bounds: "same_except s s' X \<Longrightarrow> same_bounds s s'"
  by (simp add: same_except_def same_bounds_def)

lemma same_bounds_trans: "same_bounds s s1 \<Longrightarrow> same_bounds s1 s2 \<Longrightarrow> same_bounds s s2"
  by (simp add: same_bounds_def)

lemma same_except_refl [simp]: "same_except s s X"
  by (simp add: same_except_def)

lemma same_except_trans:
  "same_except s s1 X \<Longrightarrow> same_except s1 s2 Y \<Longrightarrow> X \<union> Y \<subseteq> Z \<Longrightarrow> same_except s s2 Z"
  unfolding same_except_def
  apply clarsimp
  subgoal for w
    apply (subgoal_tac "w \<notin> X \<and> w \<notin> Y")
     apply simp
    apply blast
    done
  done

lemma same_except_store:
  "al8 w \<Longrightarrow> w \<in> X \<Longrightarrow> same_except s (s\<lparr>mem := put_word w v (mem s)\<rparr>) X"
  unfolding same_except_def by (auto simp: word_at_put_al8)

lemma same_except_first [simp]:
  "same_except s (s'\<lparr>first := f\<rparr>) X = same_except s s' X"
  by (simp add: same_except_def)

lemma node_ok_upd_fun [simp]:
  "node_ok (s\<lparr>mem := m\<rparr>) = node_ok s" "node_ok (s\<lparr>first := f\<rparr>) = node_ok s"
  by (rule ext, simp)+

lemma free_list_al16: "free_list s fl \<Longrightarrow> list_all al16 fl"
  by (auto simp: free_list_def list_all_iff node_ok_def)

lemma lfields_al8: "list_all al16 fl \<Longrightarrow> w \<in> lfields fl \<Longrightarrow> al8 w"
  by (auto simp: lfields_def list_all_iff al16_al8 al8_plus8)

lemma free_list_store:
  assumes "free_list s fl" "al8 w" "w \<notin> lfields fl"
  shows "free_list (s\<lparr>mem := put_word w v (mem s)\<rparr>) fl"
proof -
  have "seg (put_word w v (mem s)) 0 fl 0 = seg (mem s) 0 fl 0"
    using assms free_list_al16[OF assms(1)] by (intro seg_put_frame) (auto simp: lfields_def)
  then show ?thesis using assms(1) by (simp add: free_list_def list_all_iff)
qed

lemma unlink_mem_frame:
  assumes "al8 w" "p \<noteq> 0 \<longrightarrow> al8 p \<and> w \<noteq> p" "n \<noteq> 0 \<longrightarrow> al8 (n + 8) \<and> w \<noteq> n + 8"
  shows "word_at (unlink_mem m p n) w = word_at m w"
  using assms by (cases "p = 0"; cases "n = 0") (auto simp: unlink_mem_def Let_def word_at_put_al8)

lemma remove_node_frame:
  assumes fl: "free_list s fl" and x: "x \<in> set fl"
  shows "\<exists>s'. remove_node (x - 8) s = Some s' \<and> free_list s' (remove1 x fl) \<and>
              same_except s s' (lfields fl)"
proof -
  from x obtain ys zs where sp: "fl = ys @ x # zs" by (meson split_list)
  have d: "distinct fl" using fl by (simp add: free_list_def)
  then have r: "remove1 x fl = ys @ zs" unfolding sp by (simp add: remove1_append)
  note n = free_list_nodes[OF fl[unfolded sp]]
  let ?p = "last0 ys 0" and ?n = "hd0 zs 0"
  let ?s' = "s\<lparr>mem := unlink_mem (mem s) ?p ?n, first := (if ?p = 0 then ?n else first s)\<rparr>"
  have e: "remove_node (x - 8) s = Some ?s'"
    using n by (intro remove_node_eq) auto
  have f: "free_list ?s' (ys @ zs)"
    using remove_node_free_list[OF fl[unfolded sp]] .
  have pin: "?p \<noteq> 0 \<longrightarrow> ?p \<in> set fl" and nin: "?n \<noteq> 0 \<longrightarrow> ?n \<in> set fl"
    unfolding sp by (auto simp: last0_def hd0_def split: list.splits)
  have al: "list_all al16 fl" by (rule free_list_al16[OF fl])
  have "word_at (unlink_mem (mem s) ?p ?n) w = word_at (mem s) w" if "al8 w" "w \<notin> lfields fl" for w
    using that pin nin al
    by (intro unlink_mem_frame) (auto simp: lfields_def list_all_iff al16_al8 al8_plus8)
  then have "same_except s ?s' (lfields fl)" by (simp add: same_except_def)
  with e f r show ?thesis by simp
qed

lemma add_node_eq:
  assumes c: "node_ok s c" and f: "first s \<noteq> 0 \<longrightarrow> node_ok s (first s)"
  shows "add_node (c - 8) s = Some (s\<lparr>mem := link_mem (mem s) c (first s), first := c\<rparr>)"
proof -
  let ?s1 = "s\<lparr>mem := put_word c (first s) (mem s)\<rparr>"
  let ?s2 = "?s1\<lparr>mem := put_word (c + 8) 0 (mem ?s1)\<rparr>"
  have s1: "store64 c (first s) s = Some ?s1" by (rule node_ok_stores(1)[OF c])
  have "node_ok ?s1 c" using c by simp
  then have s2: "store64 (c + 8) 0 ?s1 = Some ?s2" by (rule node_ok_stores(2))
  show ?thesis
  proof (cases "first s = 0")
    case True
    then show ?thesis using s1 s2 by (simp add: add_node_def link_mem_def)
  next
    case False
    then have "node_ok ?s2 (first s)" using f by simp
    then have "store64 (first s + 8) c ?s2 = Some (?s2\<lparr>mem := put_word (first s + 8) c (mem ?s2)\<rparr>)"
      by (rule node_ok_stores(2))
    with False show ?thesis using s1 s2 by (simp add: add_node_def link_mem_def)
  qed
qed

lemma add_node_free_list:
  assumes fl: "free_list s fl" and c: "node_ok s c" "c \<notin> set fl"
  shows "free_list (s\<lparr>mem := link_mem (mem s) c (first s), first := c\<rparr>) (c # fl)"
proof -
  let ?m = "mem s"
  have alc: "al16 c" using c by (simp add: node_ok_def)
  have al: "list_all al16 fl" by (rule free_list_al16[OF fl])
  have sg: "seg ?m 0 fl 0" and f: "first s = hd0 fl 0" and d: "distinct fl"
    using fl by (auto simp: free_list_def hd0_def)
  define m2 where "m2 = put_word (c + 8) 0 (put_word c (first s) ?m)"
  have s2: "seg m2 0 fl 0"
  proof -
    have "seg (put_word c (first s) ?m) 0 fl 0 = seg ?m 0 fl 0"
      using alc al c(2) al16_plus8_neq[of _ c]
      by (intro seg_put_frame) (auto simp: al16_al8 list_all_iff)
    moreover have "seg m2 0 fl 0 = seg (put_word c (first s) ?m) 0 fl 0"
      unfolding m2_def using alc al c(2) al16_plus8_neq[of c]
      by (intro seg_put_frame) (auto simp: al8_plus8 list_all_iff)
    ultimately show ?thesis using sg by simp
  qed
  have w2: "word_at m2 c = first s" "word_at m2 (c + 8) = 0"
    unfolding m2_def using alc by (simp_all add: word_at_put_al8 al16_al8 al8_plus8)
  show ?thesis
  proof (cases fl)
    case Nil
    then show ?thesis using w2 f c fl
      by (simp add: free_list_def link_mem_def hd0_def m2_def)
  next
    case (Cons y ys)
    then have y: "first s = y" "y \<noteq> 0" "al16 y" "y \<noteq> c"
      using f fl c(2) by (auto simp: hd0_def free_list_def node_ok_def)
    have "seg (put_word (y + 8) c m2) c (y # ys) 0"
      using s2 d al unfolding Cons by (intro seg_set_prev[where c = 0]) auto
    moreover have "word_at (put_word (y + 8) c m2) c = y" "word_at (put_word (y + 8) c m2) (c + 8) = 0"
      using w2 y alc al16_plus8_neq[of y c] by (simp_all add: word_at_put_al8 al16_al8 al8_plus8)
    ultimately show ?thesis using y c fl Cons
      by (simp add: free_list_def link_mem_def m2_def)
  qed
qed

lemma link_mem_frame:
  assumes "al8 w" "al16 c" "w \<noteq> c" "w \<noteq> c + 8" "f \<noteq> 0 \<longrightarrow> al16 f \<and> w \<noteq> f + 8"
  shows "word_at (link_mem m c f) w = word_at m w"
  using assms by (cases "f = 0") (auto simp: link_mem_def Let_def word_at_put_al8 al16_al8 al8_plus8)

lemma add_node_frame:
  assumes fl: "free_list s fl" and c: "node_ok s c" "c \<notin> set fl"
  shows "\<exists>s'. add_node (c - 8) s = Some s' \<and> free_list s' (c # fl) \<and>
              same_except s s' (lfields (c # fl))"
proof -
  let ?s' = "s\<lparr>mem := link_mem (mem s) c (first s), first := c\<rparr>"
  have f: "first s \<noteq> 0 \<longrightarrow> first s \<in> set fl \<and> node_ok s (first s)"
    using fl by (cases fl) (auto simp: free_list_def)
  then have e: "add_node (c - 8) s = Some ?s'" using c by (intro add_node_eq) auto
  have "word_at (link_mem (mem s) c (first s)) w = word_at (mem s) w"
    if "al8 w" "w \<notin> lfields (c # fl)" for w
    using that f c(1)
    by (intro link_mem_frame) (auto simp: lfields_def node_ok_def)
  then have "same_except s ?s' (lfields (c # fl))" by (simp add: same_except_def)
  with e add_node_free_list[OF fl c] show ?thesis by simp
qed

section \<open>Heaps whose free list holds only some of the free blocks\<close>

fun starts :: "nat \<Rightarrow> (nat \<times> bool) list \<Rightarrow> nat list" where
  "starts a [] = []"
| "starts a ((sz, al) # bs) = (a + 8) # starts (a + sz + 16) bs"

definition heap_gen :: "heap \<Rightarrow> (nat \<times> bool) list \<Rightarrow> addr list \<Rightarrow> nat set \<Rightarrow> bool" where
  "heap_gen s bs fl N =
     (0 < unat (heap_lo s) \<and> 16 dvd unat (heap_lo s) \<and> bs \<noteq> [] \<and>
      unat (brk s) = unat (heap_lo s) + 16 + span bs \<and> unat (brk s) \<le> unat (heap_max s) \<and>
      word_at (mem s) (heap_lo s) = 1 \<and> word_at (mem s) (brk s - 8) = 1 \<and>
      chain (mem s) (unat (heap_lo s) + 8) bs \<and> free_list s fl \<and>
      set fl = of_nat ` N \<and> N \<subseteq> set (starts (unat (heap_lo s) + 8) bs))"

lemma starts_append: "starts a (xs @ ys) = starts a xs @ starts (a + span xs) ys"
  by (induction a xs rule: starts.induct) (auto simp: add.assoc)

lemma free_nodes_starts: "set (free_nodes a bs) \<subseteq> set (starts a bs)"
  by (induction a bs rule: starts.induct) auto

lemma heap_rep_gen:
  "heap_rep s bs fl = heap_gen s bs fl (set (free_nodes (unat (heap_lo s) + 8) bs))"
  using free_nodes_starts[of "unat (heap_lo s) + 8" bs]
  by (auto simp: heap_rep_def heap_gen_def)

lemma starts_range: "wfb bs \<Longrightarrow> n \<in> set (starts a bs) \<Longrightarrow> a + 8 \<le> n \<and> n + 24 \<le> a + span bs"
  by (induction a bs rule: starts.induct) fastforce+

lemma starts_dvd: "wfb bs \<Longrightarrow> 16 dvd a + 8 \<Longrightarrow> n \<in> set (starts a bs) \<Longrightarrow> 16 dvd n"
proof (induction a bs rule: starts.induct)
  case (2 a sz al bs)
  then have "16 dvd a + 8" "16 dvd sz" by auto
  then have "16 dvd a + sz + 16 + 8" by presburger
  with 2 show ?case by auto
qed simp

lemma starts_not_tags:
  "wfb bs \<Longrightarrow> n \<in> set (starts a bs) \<Longrightarrow> n \<notin> tags a bs \<and> n + 8 \<notin> tags a bs"
proof (induction a bs rule: starts.induct)
  case (2 a sz al bs)
  show ?case
  proof (cases "n = a + 8")
    case True
    then have "n \<notin> tags (a + sz + 16) bs" "n + 8 \<notin> tags (a + sz + 16) bs"
      using tags_range[of n "a + sz + 16" bs] tags_range[of "n + 8" "a + sz + 16" bs] "2.prems"(1)
      by auto
    moreover have "16 \<le> sz" using "2.prems" by simp
    ultimately show ?thesis using True by auto
  next
    case False
    with "2.prems" have n: "n \<in> set (starts (a + sz + 16) bs)" "wfb bs" by auto
    from starts_range[OF n(2,1)] "2.IH"[OF n(2,1)] show ?thesis by auto
  qed
qed simp

text \<open>Facts about a well-formed heap, with \<open>L\<close> the lower end as a number.\<close>

lemma heap_gen_bounds:
  assumes "heap_gen s bs fl N"
  shows "unat (heap_lo s) + 16 + span bs < 18446744073709551616" "wfb bs" "free_list s fl"
    "heap_lo s = of_nat (unat (heap_lo s))" "brk s - 8 = of_nat (unat (heap_lo s) + 8 + span bs)"
    "16 dvd unat (heap_lo s) + 8 + 8"
proof -
  let ?L = "unat (heap_lo s)"
  have b: "unat (brk s) = ?L + 16 + span bs" using assms by (simp add: heap_gen_def)
  then show "?L + 16 + span bs < 18446744073709551616" using unat_lt64[of "brk s"] by simp
  show "wfb bs" using assms chain_wfb by (auto simp: heap_gen_def)
  show "free_list s fl" using assms by (simp add: heap_gen_def)
  show "heap_lo s = of_nat ?L" by simp
  have "of_nat (unat (brk s)) = brk s" by simp
  then have "brk s = of_nat (?L + 16 + span bs)" unfolding b by simp
  then show "brk s - 8 = of_nat (?L + 8 + span bs)" by simp
  have "16 dvd ?L" using assms by (simp add: heap_gen_def)
  then show "16 dvd ?L + 8 + 8" by presburger
qed

lemma in_heap_nat:
  assumes "unat (heap_lo s) \<le> t" "t + k \<le> unat (brk s)"
  shows "in_heap s (of_nat t) k"
proof -
  have "t < 18446744073709551616" using assms(2) unat_lt64[of "brk s"] by linarith
  then have "unat (of_nat t :: 64 word) = t" by (rule unat_of_nat64)
  then show ?thesis using assms by (simp add: in_heap_def)
qed

lemma load64_nat:
  "unat (heap_lo s) \<le> t \<Longrightarrow> t + 8 \<le> unat (brk s) \<Longrightarrow>
   load64 s (of_nat t) = Some (word_at (mem s) (of_nat t))"
  using in_heap_nat[of s t 8] by (simp add: load64_def)

lemma store64_nat:
  "unat (heap_lo s) \<le> t \<Longrightarrow> t + 8 \<le> unat (brk s) \<Longrightarrow>
   store64 (of_nat t) v s = Some (s\<lparr>mem := put_word (of_nat t) v (mem s)\<rparr>)"
  using in_heap_nat[of s t 8] by (simp add: store64_def)

lemma tag_neq0: "16 \<le> sz \<Longrightarrow> sz < 18446744073709551616 \<Longrightarrow> (of_nat sz :: 64 word) \<noteq> 0"
  using of_nat_inj64[of sz 0] by simp

text \<open>The unfolding of \<open>coalesce\<close> once the words it reads are known.\<close>

lemma coalesce_eq:
  assumes "get_size s (b - 8) = Some pf" "get_size s b = Some z" "z \<noteq> 0"
    and "get_size s (b + z + 8) = Some z"
    and "pf \<noteq> 0 \<longrightarrow> get_allocated s (b - pf - 16) = Some pa" "pf = 0 \<longrightarrow> pa"
    and "get_allocated s (b + z + 16) = Some na"
  shows "coalesce b s =
    (let prevBlock = (if pf = 0 then 0 else b - pf - 16); nextBlock = b + z + 16 in
     if pa \<and> na then add_node b s
     else if pa \<and> \<not> na then
       do {
         nextSize \<leftarrow> get_size s nextBlock;
         let sz = z + (nextSize + 16);
         s1 \<leftarrow> remove_node nextBlock s;
         s2 \<leftarrow> write_value b (lsb_a sz 0) s1;
         s3 \<leftarrow> write_value (b + sz + 8) (lsb_a sz 0) s2;
         add_node b s3
       }
     else if \<not> pa \<and> na then
       do {
         prevSize \<leftarrow> get_size s prevBlock;
         let sz = z + (prevSize + 16);
         s1 \<leftarrow> remove_node prevBlock s;
         s2 \<leftarrow> write_value prevBlock (lsb_a sz 0) s1;
         s3 \<leftarrow> write_value (prevBlock + sz + 8) (lsb_a sz 0) s2;
         add_node prevBlock s3
       }
     else
       do {
         prevSize \<leftarrow> get_size s prevBlock;
         nextSize \<leftarrow> get_size s nextBlock;
         let sz = z + (prevSize + nextSize + 32);
         s1 \<leftarrow> remove_node prevBlock s;
         s2 \<leftarrow> remove_node nextBlock s1;
         s3 \<leftarrow> write_value prevBlock (lsb_a sz 0) s2;
         s4 \<leftarrow> write_value (prevBlock + sz + 8) (lsb_a sz 0) s3;
         add_node prevBlock s4
       })"
proof (cases "pf = 0")
  case True
  with assms show ?thesis
    by (simp add: coalesce_def next_blk_def prev_blk_def get_allocated_def Let_def)
next
  case False
  with assms show ?thesis
    by (simp add: coalesce_def next_blk_def prev_blk_def Let_def)
qed

section \<open>Replacing a run of blocks\<close>

lemma of_nat_plus8: "(of_nat n :: 64 word) + 8 = of_nat (n + 8)"
  by simp

lemma tag_not_field:
  assumes "wfb bs" "a + span bs < 18446744073709551616" "t \<in> tags a bs" "n \<in> set (starts a bs)"
  shows "(of_nat t :: 64 word) \<noteq> of_nat n" "(of_nat t :: 64 word) \<noteq> of_nat n + 8"
proof -
  from tags_range[OF assms(3)] starts_range[OF assms(1,4)] assms(2)
  have b: "t < 18446744073709551616" "n < 18446744073709551616" "n + 8 < 18446744073709551616"
    by linarith+
  from starts_not_tags[OF assms(1,4)] assms(3) have "t \<noteq> n" "t \<noteq> n + 8" by auto
  then have "(of_nat t :: 64 word) \<noteq> of_nat n" "(of_nat t :: 64 word) \<noteq> of_nat (n + 8)"
    using b of_nat_inj64[of t n] of_nat_inj64[of t "n + 8"] by blast+
  then show "(of_nat t :: 64 word) \<noteq> of_nat n" "(of_nat t :: 64 word) \<noteq> of_nat n + 8"
    by simp_all
qed

lemma outside_not_field:
  assumes "wfb bs" "a + span bs < 18446744073709551616" "t < a + 8 \<or> a + span bs - 8 \<le> t"
    "t < 18446744073709551616" "n \<in> set (starts a bs)"
  shows "(of_nat t :: 64 word) \<noteq> of_nat n" "(of_nat t :: 64 word) \<noteq> of_nat n + 8"
proof -
  from starts_range[OF assms(1,5)] assms(2)
  have b: "n < 18446744073709551616" "n + 8 < 18446744073709551616" by linarith+
  from starts_range[OF assms(1,5)] assms(3) have "t \<noteq> n" "t \<noteq> n + 8" by auto
  then have "(of_nat t :: 64 word) \<noteq> of_nat n" "(of_nat t :: 64 word) \<noteq> of_nat (n + 8)"
    using b assms(4) of_nat_inj64[of t n] of_nat_inj64[of t "n + 8"] by blast+
  then show "(of_nat t :: 64 word) \<noteq> of_nat n" "(of_nat t :: 64 word) \<noteq> of_nat n + 8"
    by simp_all
qed

definition nfields :: "nat \<Rightarrow> (nat \<times> bool) list \<Rightarrow> addr set" where
  "nfields a bs = lfields (map of_nat (starts a bs))"

lemma nfields_iff: "w \<in> nfields a bs = (\<exists>n\<in>set (starts a bs). w = of_nat n \<or> w = of_nat n + 8)"
  by (auto simp: nfields_def lfields_def)

lemma lfields_mono: "set xs \<subseteq> set ys \<Longrightarrow> lfields xs \<subseteq> lfields ys"
  by (auto simp: lfields_def)

lemma lfields_subset_nfields: "set fl \<subseteq> of_nat ` set (starts a bs) \<Longrightarrow> lfields fl \<subseteq> nfields a bs"
  unfolding nfields_def by (rule lfields_mono) simp

lemma chain_same:
  assumes "same_except s s' X" "wfb bs" "8 dvd a" "\<forall>t\<in>tags a bs. of_nat t \<notin> X"
  shows "chain (mem s') a bs = chain (mem s) a bs"
proof (rule chain_cong, rule ballI)
  fix t assume t: "t \<in> tags a bs"
  then have "al8 (of_nat t)" using tags_dvd[OF assms(2,3)] by (simp add: al8_of_nat)
  with assms(1,4) t show "word_at (mem s') (of_nat t) = word_at (mem s) (of_nat t)"
    by (simp add: same_except_def)
qed

text \<open>
  The heap stays well formed when a run of blocks \<open>mid\<close> is rewritten into blocks
  \<open>mid'\<close> of the same span, if outside the link lfields of nodes and the bytes of \<open>mid\<close>
  memory is unchanged.
\<close>

lemma heap_gen_assemble:
  assumes old: "heap_gen s (bs1 @ mid @ bs2) fl N"
    and se: "same_except s s' X"
    and X: "\<forall>w\<in>X. w \<in> nfields (unat (heap_lo s) + 8) (bs1 @ mid @ bs2) \<or>
              (\<exists>t. w = of_nat t \<and> unat (heap_lo s) + 8 + span bs1 \<le> t \<and>
                   t + 8 \<le> unat (heap_lo s) + 8 + span bs1 + span mid)"
    and mid': "chain (mem s') (unat (heap_lo s) + 8 + span bs1) mid'" "span mid' = span mid"
       "bs1 @ mid' @ bs2 \<noteq> []"
    and fl': "free_list s' fl'" "set fl' = of_nat ` N'"
       "N' \<subseteq> set (starts (unat (heap_lo s) + 8) (bs1 @ mid' @ bs2))"
  shows "heap_gen s' (bs1 @ mid' @ bs2) fl' N'"
proof -
  let ?L = "unat (heap_lo s)"
  let ?a = "?L + 8"
  let ?bs = "bs1 @ mid @ bs2"
  let ?A = "?a + span bs1"
  note hb = heap_gen_bounds[OF old]
  have lt: "?a + span ?bs < 18446744073709551616" using hb(1) by simp
  have L: "0 < ?L" "16 dvd ?L" using old by (simp_all add: heap_gen_def)
  then have a8: "8 dvd ?a" by presburger
  have w: "wfb bs1" "wfb mid" "wfb bs2" using hb(2) by simp_all
  have same: "heap_lo s' = heap_lo s" "brk s' = brk s" "heap_max s' = heap_max s"
    using se by (simp_all add: same_except_def)
  have notX: "of_nat t \<notin> X"
    if t: "t < 18446744073709551616" and "t \<in> tags ?a ?bs \<or> t < ?a + 8 \<or> ?a + span ?bs - 8 \<le> t"
      and out: "t + 8 \<le> ?A \<or> ?A + span mid \<le> t" for t
  proof
    assume "of_nat t \<in> X"
    with X consider (f) "of_nat t \<in> nfields ?a ?bs"
      | (m) u where "(of_nat t :: 64 word) = of_nat u" "?A \<le> u" "u + 8 \<le> ?A + span mid"
      by blast
    then show False
    proof cases
      case f
      then obtain n where n: "n \<in> set (starts ?a ?bs)" "(of_nat t :: 64 word) = of_nat n \<or> (of_nat t :: 64 word) = of_nat n + 8"
        unfolding nfields_iff by blast
      show False
        using that(2) tag_not_field[OF hb(2) lt _ n(1), of t] outside_not_field[OF hb(2) lt _ t n(1)] n(2)
        by blast
    next
      case m
      then have "u < 18446744073709551616" using lt by simp
      with m(1) t have "t = u" by (simp add: of_nat_inj64)
      with m out show False by linarith
    qed
  qed
  have c1: "chain (mem s') ?a bs1 = chain (mem s) ?a bs1"
  proof (rule chain_same[OF se w(1) a8], rule ballI)
    fix t assume t: "t \<in> tags ?a bs1"
    from tags_range[OF t] lt show "of_nat t \<notin> X"
      using t by (intro notX) (auto simp: tags_append)
  qed
  have a8': "8 dvd ?A + span mid" using a8 wfb_span_dvd[OF w(1)] wfb_span_dvd[OF w(2)]
    by presburger
  have c2: "chain (mem s') (?A + span mid) bs2 = chain (mem s) (?A + span mid) bs2"
  proof (rule chain_same[OF se w(3) a8'], rule ballI)
    fix t assume t: "t \<in> tags (?A + span mid) bs2"
    from tags_range[OF t] lt show "of_nat t \<notin> X"
      using t by (intro notX) (auto simp: tags_append add.assoc)
  qed
  have ch: "chain (mem s') ?a (bs1 @ mid' @ bs2)"
    using old c1 c2 mid' by (simp add: chain_append heap_gen_def add.assoc)
  have "8 dvd ?L" using L by presburger
  then have "al8 (heap_lo s)" by (simp add: al8_def mod_eq_0_iff_dvd)
  moreover have "heap_lo s \<notin> X" using notX[of ?L] hb(1) by simp
  ultimately have p: "word_at (mem s') (heap_lo s) = 1" using se old
    by (simp add: same_except_def heap_gen_def)
  have "8 dvd ?a + span ?bs" using a8 wfb_span_dvd[OF hb(2)] by presburger
  then have "al8 (brk s - 8)" unfolding hb(5) by (rule al8_of_nat)
  moreover have "brk s - 8 \<notin> X" unfolding hb(5) using notX[of "?a + span ?bs"] hb(1) by simp
  ultimately have e: "word_at (mem s') (brk s - 8) = 1" using se old
    by (simp add: same_except_def heap_gen_def)
  show ?thesis
    unfolding heap_gen_def same using old ch p e fl' mid' by (simp add: heap_gen_def)
qed

section \<open>Merging a run of blocks into one free block\<close>

lemma span_ge: "wfb bs \<Longrightarrow> bs \<noteq> [] \<Longrightarrow> 32 \<le> span bs"
  by (cases bs) auto

lemma first_tag: "bs \<noteq> [] \<Longrightarrow> a \<in> tags a bs"
  by (cases bs) auto

lemma last_tag: "wfb bs \<Longrightarrow> bs \<noteq> [] \<Longrightarrow> a + span bs - 8 \<in> tags a bs"
proof (induction a bs rule: tags.induct)
  case (2 a sz al bs)
  show ?case
  proof (cases "bs = []")
    case True
    then show ?thesis by simp
  next
    case False
    with 2 have "a + sz + 16 + span bs - 8 \<in> tags (a + sz + 16) bs" by simp
    moreover have "a + sz + 16 + span bs - 8 = a + span ((sz, al) # bs) - 8" by simp
    ultimately show ?thesis by (metis UnCI tags.simps(2))
  qed
qed simp

lemma first_start: "bs \<noteq> [] \<Longrightarrow> a + 8 \<in> set (starts a bs)"
  by (cases bs) auto

lemma start_node_ok:
  assumes "heap_gen s bs fl N" "n \<in> set (starts (unat (heap_lo s) + 8) bs)"
    and "heap_lo s' = heap_lo s" "brk s' = brk s"
  shows "node_ok s' (of_nat n)"
proof -
  let ?L = "unat (heap_lo s)"
  note hb = heap_gen_bounds[OF assms(1)]
  note r = starts_range[OF hb(2) assms(2)]
  have d: "16 dvd n" using starts_dvd[OF hb(2) hb(6) assms(2)] .
  have b: "unat (brk s) = ?L + 16 + span bs" using assms(1) by (simp add: heap_gen_def)
  have lt: "n < 18446744073709551616" using r hb(1) by linarith
  have "(of_nat n :: 64 word) \<noteq> 0" using of_nat_inj64[OF lt, of 0] r by simp
  moreover have "al16 (of_nat n)" using d by (rule al16_of_nat)
  moreover have "in_heap s' (of_nat n) 16"
    using r b assms(3,4) by (intro in_heap_nat) simp_all
  ultimately show ?thesis by (simp add: node_ok_def)
qed

lemma of_nat_image_inj:
  assumes "(of_nat n :: 64 word) \<in> of_nat ` M" "n < 18446744073709551616"
    "\<forall>k\<in>M. k < 18446744073709551616"
  shows "n \<in> M"
proof -
  from assms(1) obtain k where k: "k \<in> M" "(of_nat n :: 64 word) = of_nat k" by blast
  then have "n = k" using assms(2,3) of_nat_inj64[of n k] by blast
  with k show ?thesis by simp
qed

lemma merge_tail:
  fixes s :: heap
  defines "L \<equiv> unat (heap_lo s)"
  assumes old: "heap_gen s (bs1 @ mid @ bs2) fl N" and mid: "mid \<noteq> []"
    and s1: "same_except s s1 (lfields fl)" "free_list s1 fl1" "set fl1 = of_nat ` N1"
    and N1: "N1 \<subseteq> N" "N1 \<inter> set (starts (L + 8 + span bs1) mid) = {}"
  shows "\<exists>s'. (do {
            s2 \<leftarrow> write_value (of_nat (L + 8 + span bs1)) (tag (span mid - 16) False) s1;
            s3 \<leftarrow> write_value (of_nat (L + 8 + span bs1 + (span mid - 16) + 8)) (tag (span mid - 16) False) s2;
            add_node (of_nat (L + 8 + span bs1)) s3 }) = Some s' \<and> same_bounds s s' \<and>
          heap_gen s' (bs1 @ [(span mid - 16, False)] @ bs2) (of_nat (L + 8 + span bs1 + 8) # fl1)
            (insert (L + 8 + span bs1 + 8) N1)"
proof -
  let ?a = "L + 8" and ?bs = "bs1 @ mid @ bs2"
  define A where "A = L + 8 + span bs1"
  define big where "big = span mid - 16"
  define v where "v = tag big False"
  define F where "F = A + big + 8"
  note hb = heap_gen_bounds[OF old, folded L_def]
  have w: "wfb bs1" "wfb mid" "wfb bs2" using hb(2) by simp_all
  have sm: "32 \<le> span mid" "16 dvd span mid" using span_ge[OF w(2) mid] wfb_span_dvd[OF w(2)] .
  then have big: "16 \<le> big" "16 dvd big" "big + 16 = span mid"
    unfolding big_def by (simp, presburger, simp)
  have lt: "?a + span ?bs < 18446744073709551616" using hb(1) by simp
  have same: "heap_lo s1 = heap_lo s" "brk s1 = brk s"
    using s1(1) by (simp_all add: same_except_def)
  have b: "unat (brk s) = L + 16 + span ?bs" using old by (simp add: heap_gen_def L_def)
  have Nst: "N \<subseteq> set (starts ?a ?bs)" and flN: "set fl = of_nat ` N"
    using old by (simp_all add: heap_gen_def L_def)
  have Ld: "16 dvd L" using old by (simp add: heap_gen_def L_def)
  have A8: "8 dvd A" "8 dvd F"
    using Ld wfb_span_dvd[OF w(1)] big(2) unfolding A_def F_def by presburger+
  have e: "A + span mid - 8 = F" using big(3) unfolding F_def by linarith
  have "A \<in> tags A mid" "F \<in> tags A mid"
    using first_tag[OF mid, of A] last_tag[OF w(2) mid, of A] unfolding e by blast+
  then have tA: "A \<in> tags ?a ?bs" "F \<in> tags ?a ?bs"
    unfolding tags_append A_def by blast+
  have stA: "A + 8 \<in> set (starts A mid)" by (rule first_start[OF mid])
  then have stA': "A + 8 \<in> set (starts ?a ?bs)" by (simp add: starts_append A_def)
  have fl1st: "set fl1 \<subseteq> of_nat ` set (starts ?a ?bs)" using s1(3) N1(1) Nst by blast
  have flst: "set fl \<subseteq> of_nat ` set (starts ?a ?bs)" using flN Nst by blast
  define c :: addr where "c = of_nat (A + 8)"
  have "c \<in> of_nat ` set (starts ?a ?bs)" unfolding c_def using stA' by (rule imageI)
  then have cfl1: "set (c # fl1) \<subseteq> of_nat ` set (starts ?a ?bs)" using fl1st by simp
  have tagnf: "of_nat t \<notin> lfields xs"
    if tt: "t \<in> tags ?a ?bs" and xs: "set xs \<subseteq> of_nat ` set (starts ?a ?bs)" for t xs
  proof
    assume "of_nat t \<in> lfields xs"
    then obtain n where "n \<in> set (starts ?a ?bs)" "(of_nat t :: 64 word) = of_nat n \<or> (of_nat t :: 64 word) = of_nat n + 8"
      using xs by (auto simp: lfields_def)
    then show False using tag_not_field[OF hb(2) lt tt] by blast
  qed
  let ?s2 = "s1\<lparr>mem := put_word (of_nat A) v (mem s1)\<rparr>"
  let ?s3 = "?s2\<lparr>mem := put_word (of_nat F) v (mem ?s2)\<rparr>"
  have rA: "L \<le> A" "A + 8 \<le> unat (brk s)" "L \<le> F" "F + 8 \<le> unat (brk s)" "A \<noteq> F"
    unfolding A_def F_def b using big(3) by simp_all
  have al: "al8 (of_nat A :: 64 word)" "al8 (of_nat F :: 64 word)"
    using A8 by (simp_all add: al8_of_nat)
  have st1: "write_value (of_nat A) v s1 = Some ?s2"
    unfolding write_value_def using rA same by (intro store64_nat) (simp_all add: L_def)
  have st2: "write_value (of_nat F) v ?s2 = Some ?s3"
    unfolding write_value_def using rA same by (intro store64_nat) (simp_all add: L_def)
  have f2: "free_list ?s2 fl1"
    using free_list_store[OF s1(2) al(1) tagnf[OF tA(1) fl1st], of v] .
  have f3: "free_list ?s3 fl1"
    using free_list_store[OF f2 al(2) tagnf[OF tA(2) fl1st], of v] .
  have cok: "node_ok ?s3 c" unfolding c_def
    using same by (intro start_node_ok[OF old]) (simp_all add: stA' L_def[symmetric])
  have cnot: "c \<notin> set fl1"
  proof
    assume "c \<in> set fl1"
    then have "(of_nat (A + 8) :: 64 word) \<in> of_nat ` N1" using s1(3) by (simp add: c_def)
    moreover have "\<forall>k\<in>N1. k < 18446744073709551616"
      using N1(1) Nst starts_range[OF hb(2)] lt by fastforce
    moreover have "A + 8 < 18446744073709551616" using rA(2) unat_lt64[of "brk s"] by linarith
    ultimately have "A + 8 \<in> N1" by (intro of_nat_image_inj)
    with N1(2) stA show False by (auto simp: A_def)
  qed
  from add_node_frame[OF f3 cok cnot] obtain s4 where s4:
    "add_node (c - 8) ?s3 = Some s4" "free_list s4 (c # fl1)" "same_except ?s3 s4 (lfields (c # fl1))"
    by blast
  have c8: "c - 8 = of_nat A" by (simp add: c_def)
  define X where "X = lfields fl \<union> {of_nat A, of_nat F} \<union> lfields (c # fl1)"
  have se: "same_except s s4 X"
  proof -
    have "same_except s1 ?s2 {of_nat A}" using al by (intro same_except_store) simp_all
    moreover have "same_except ?s2 ?s3 {of_nat F}"
      using al by (intro same_except_store) simp_all
    ultimately have "same_except s1 ?s3 {of_nat A, of_nat F}"
      by (rule same_except_trans) auto
    with s1(1) have "same_except s ?s3 (lfields fl \<union> {of_nat A, of_nat F})"
      by (rule same_except_trans) auto
    then show ?thesis using s4(3) unfolding X_def by (rule same_except_trans) auto
  qed
  have XX: "\<forall>w\<in>X. w \<in> nfields (unat (heap_lo s) + 8) ?bs \<or>
              (\<exists>t. w = of_nat t \<and> unat (heap_lo s) + 8 + span bs1 \<le> t \<and>
                   t + 8 \<le> unat (heap_lo s) + 8 + span bs1 + span mid)"
  proof
    fix w assume "w \<in> X"
    then consider "w \<in> lfields fl" | "w \<in> lfields (c # fl1)" | "w = of_nat A" | "w = of_nat F"
      unfolding X_def by blast
    then show "w \<in> nfields (unat (heap_lo s) + 8) ?bs \<or>
              (\<exists>t. w = of_nat t \<and> unat (heap_lo s) + 8 + span bs1 \<le> t \<and>
                   t + 8 \<le> unat (heap_lo s) + 8 + span bs1 + span mid)"
    proof cases
      case 1
      then show ?thesis using lfields_subset_nfields[OF flst] by (auto simp: L_def)
    next
      case 2
      then show ?thesis using lfields_subset_nfields[OF cfl1] by (auto simp: L_def)
    next
      case 3
      have "A \<le> A \<and> A + 8 \<le> A + span mid" using sm by simp
      then show ?thesis unfolding 3 A_def L_def by blast
    next
      case 4
      have "A \<le> F \<and> F + 8 \<le> A + span mid" using big unfolding F_def by simp
      then show ?thesis unfolding 4 A_def L_def by blast
    qed
  qed
  have neq: "(of_nat A :: 64 word) \<noteq> of_nat F"
    using of_nat_inj64[of A F] rA unat_lt64[of "brk s"] by simp
  have v3: "word_at (mem ?s3) (of_nat A) = v" "word_at (mem ?s3) (of_nat F) = v"
    using al neq by (simp_all add: word_at_put_al8)
  have v4: "word_at (mem s4) (of_nat A) = v" "word_at (mem s4) (of_nat F) = v"
    using s4(3) al tagnf[OF tA(1) cfl1] tagnf[OF tA(2) cfl1] v3
    unfolding same_except_def by metis+
  have ch: "chain (mem s4) (unat (heap_lo s) + 8 + span bs1) [(big, False)]"
    using v4 big unfolding v_def A_def L_def F_def by (simp add: add.assoc)
  have Nsub: "insert (A + 8) N1 \<subseteq> set (starts (unat (heap_lo s) + 8) (bs1 @ [(big, False)] @ bs2))"
  proof -
    have "N1 \<subseteq> set (starts ?a bs1) \<union> set (starts (A + span mid) bs2)"
      using N1 Nst by (auto simp: starts_append A_def)
    then show ?thesis using big(3) by (auto simp: starts_append A_def L_def add.assoc)
  qed
  have "heap_gen s4 (bs1 @ [(big, False)] @ bs2) (c # fl1) (insert (A + 8) N1)"
    using s4(2) s1(3) Nsub big(3)
    by (intro heap_gen_assemble[OF old se XX ch]) (simp_all add: c_def)
  moreover have "(do { s2 \<leftarrow> write_value (of_nat A) v s1; s3 \<leftarrow> write_value (of_nat F) v s2;
      add_node (of_nat A) s3 }) = Some s4"
    using st1 st2 s4(1) unfolding c8 by simp
  ultimately show ?thesis
    using same_except_bounds[OF se]
    unfolding A_def big_def v_def c_def F_def by (auto simp: add.assoc)
qed

section \<open>Unlinking and inserting a block of the heap\<close>

lemma of_nat_image_diff:
  assumes "\<forall>k\<in>N. k < 18446744073709551616" "n \<in> N"
  shows "(of_nat ` (N - {n}) :: 64 word set) = of_nat ` N - {of_nat n}"
proof -
  have "inj_on (of_nat :: nat \<Rightarrow> 64 word) N"
    using assms(1) of_nat_inj64 by (intro inj_onI) blast
  then show ?thesis using assms(2) by (simp add: inj_on_image_set_diff[where C = N])
qed

lemma heap_gen_lt:
  assumes "heap_gen s bs fl N"
  shows "\<forall>k\<in>N. k < 18446744073709551616"
    "\<forall>k\<in>set (starts (unat (heap_lo s) + 8) bs). k < 18446744073709551616"
proof -
  note hb = heap_gen_bounds[OF assms]
  show "\<forall>k\<in>set (starts (unat (heap_lo s) + 8) bs). k < 18446744073709551616"
    using starts_range[OF hb(2)] hb(1) by fastforce
  then show "\<forall>k\<in>N. k < 18446744073709551616" using assms by (auto simp: heap_gen_def)
qed

lemma heap_gen_list_step:
  assumes old: "heap_gen s bs fl N"
    and se: "same_except s s' (lfields xs)" "set xs \<subseteq> of_nat ` set (starts (unat (heap_lo s) + 8) bs)"
    and fl': "free_list s' fl'" "set fl' = of_nat ` N'" "N' \<subseteq> set (starts (unat (heap_lo s) + 8) bs)"
  shows "heap_gen s' bs fl' N'"
proof -
  have ne: "bs \<noteq> []" using old by (simp add: heap_gen_def)
  have o: "heap_gen s (bs @ [] @ []) fl N" using old by simp
  have X: "\<forall>w\<in>lfields xs. w \<in> nfields (unat (heap_lo s) + 8) (bs @ [] @ []) \<or>
              (\<exists>t. w = of_nat t \<and> unat (heap_lo s) + 8 + span bs \<le> t \<and>
                   t + 8 \<le> unat (heap_lo s) + 8 + span bs + span [])"
    using lfields_subset_nfields[OF se(2)] by auto
  have "heap_gen s' (bs @ [] @ []) fl' N'"
  proof (rule heap_gen_assemble[OF o se(1) X])
    show "chain (mem s') (unat (heap_lo s) + 8 + span bs) []" by simp
    show "span [] = span []" by simp
    show "bs @ [] @ [] \<noteq> []" using ne by simp
    show "free_list s' fl'" by fact
    show "set fl' = of_nat ` N'" by fact
    show "N' \<subseteq> set (starts (unat (heap_lo s) + 8) (bs @ [] @ []))" using fl'(3) by simp
  qed
  then show ?thesis by simp
qed

lemma heap_gen_remove:
  assumes old: "heap_gen s bs fl N" and n: "n \<in> N"
  shows "\<exists>s'. remove_node (of_nat (n - 8)) s = Some s' \<and> same_bounds s s' \<and>
           heap_gen s' bs (remove1 (of_nat n) fl) (N - {n})"
proof -
  let ?c = "of_nat n :: 64 word"
  have fl: "free_list s fl" and flN: "set fl = of_nat ` N"
    and Nst: "N \<subseteq> set (starts (unat (heap_lo s) + 8) bs)"
    using old by (simp_all add: heap_gen_def)
  have c: "?c \<in> set fl" using flN n by blast
  from remove_node_frame[OF fl c] obtain s' where s':
    "remove_node (?c - 8) s = Some s'" "free_list s' (remove1 ?c fl)" "same_except s s' (lfields fl)"
    by blast
  note hb = heap_gen_bounds[OF old]
  have "8 \<le> n" using starts_range[OF hb(2)] Nst n by fastforce
  then have c8: "?c - 8 = of_nat (n - 8)" by (simp add: of_nat_diff)
  have d: "distinct fl" using fl by (simp add: free_list_def)
  have st: "set (remove1 ?c fl) = of_nat ` (N - {n})"
    using d flN of_nat_image_diff[OF heap_gen_lt(1)[OF old] n] by simp
  have "heap_gen s' bs (remove1 ?c fl) (N - {n})"
    using s'(2) st Nst flN
    by (intro heap_gen_list_step[OF old s'(3)]) auto
  with s'(1) c8 same_except_bounds[OF s'(3)] show ?thesis by simp
qed

lemma heap_gen_add:
  assumes old: "heap_gen s bs fl N" and n: "n \<in> set (starts (unat (heap_lo s) + 8) bs)" "n \<notin> N"
  shows "\<exists>s'. add_node (of_nat (n - 8)) s = Some s' \<and> same_bounds s s' \<and>
           heap_gen s' bs (of_nat n # fl) (insert n N)"
proof -
  let ?c = "of_nat n :: 64 word"
  have fl: "free_list s fl" and flN: "set fl = of_nat ` N"
    and Nst: "N \<subseteq> set (starts (unat (heap_lo s) + 8) bs)"
    using old by (simp_all add: heap_gen_def)
  have cok: "node_ok s ?c" by (rule start_node_ok[OF old n(1)]) simp_all
  have cn: "?c \<notin> set fl"
  proof
    assume "?c \<in> set fl"
    then have "n \<in> N" unfolding flN using heap_gen_lt[OF old] n(1)
      by (intro of_nat_image_inj) auto
    with n(2) show False by simp
  qed
  from add_node_frame[OF fl cok cn] obtain s' where s':
    "add_node (?c - 8) s = Some s'" "free_list s' (?c # fl)" "same_except s s' (lfields (?c # fl))"
    by blast
  note hb = heap_gen_bounds[OF old]
  have "8 \<le> n" using starts_range[OF hb(2) n(1)] by simp
  then have c8: "?c - 8 = of_nat (n - 8)" by (simp add: of_nat_diff)
  have "heap_gen s' bs (?c # fl) (insert n N)"
    using s'(2) Nst flN n(1)
    by (intro heap_gen_list_step[OF old s'(3)]) auto
  with s'(1) c8 same_except_bounds[OF s'(3)] show ?thesis by simp
qed

section \<open>Reading the boundary tags\<close>

lemma tag_size': "16 dvd sz \<Longrightarrow> tag sz al AND - 2 = of_nat sz"
  using tag_size[of sz al] by simp

lemma get_size_tag:
  "load64 s a = Some (tag sz al) \<Longrightarrow> 16 dvd sz \<Longrightarrow> get_size s a = Some (of_nat sz)"
  by (simp add: get_size_def tag_size')

lemma get_allocated_tag:
  "load64 s a = Some (tag sz al) \<Longrightarrow> 16 dvd sz \<Longrightarrow> a \<noteq> 0 \<Longrightarrow> get_allocated s a = Some al"
  using tag_alloc[of sz al] by (simp add: get_allocated_def)

lemma tag_not_lfields:
  assumes "heap_gen s bs fl N" "t \<in> tags (unat (heap_lo s) + 8) bs"
    "set xs \<subseteq> of_nat ` set (starts (unat (heap_lo s) + 8) bs)"
  shows "of_nat t \<notin> lfields xs"
proof
  note hb = heap_gen_bounds[OF assms(1)]
  have lt: "unat (heap_lo s) + 8 + span bs < 18446744073709551616" using hb(1) by simp
  assume "of_nat t \<in> lfields xs"
  then obtain n where "n \<in> set (starts (unat (heap_lo s) + 8) bs)"
    "(of_nat t :: 64 word) = of_nat n \<or> (of_nat t :: 64 word) = of_nat n + 8"
    using assms(3) by (auto simp: lfields_def)
  then show False using tag_not_field[OF hb(2) lt assms(2)] by blast
qed

lemma read_block:
  fixes s :: heap
  defines "L \<equiv> unat (heap_lo s)"
  assumes hg: "heap_gen s (xs @ (sz, al) # ys) fl N"
  shows "get_size s (of_nat (L + 8 + span xs)) = Some (of_nat sz)"
    "get_allocated s (of_nat (L + 8 + span xs)) = Some al"
    "get_size s (of_nat (L + 8 + span xs + sz + 8)) = Some (of_nat sz)"
    "16 \<le> sz" "16 dvd sz" "(of_nat sz :: 64 word) \<noteq> 0"
proof -
  let ?B = "L + 8 + span xs"
  note hb = heap_gen_bounds[OF hg, folded L_def]
  have b: "unat (brk s) = L + 16 + span (xs @ (sz, al) # ys)" using hg by (simp add: heap_gen_def L_def)
  have c: "chain (mem s) ?B ((sz, al) # ys)" using hg by (simp add: heap_gen_def chain_append L_def)
  then show sz: "16 \<le> sz" "16 dvd sz" by simp_all
  have w: "word_at (mem s) (of_nat ?B) = tag sz al" "word_at (mem s) (of_nat (?B + sz + 8)) = tag sz al"
    using c by simp_all
  have l1: "load64 s (of_nat ?B) = Some (tag sz al)"
    unfolding w(1)[symmetric] by (rule load64_nat) (simp_all add: b L_def)
  have l2: "load64 s (of_nat (?B + sz + 8)) = Some (tag sz al)"
    unfolding w(2)[symmetric] by (rule load64_nat) (simp_all add: b L_def)
  have "0 < L" using hg by (simp add: heap_gen_def L_def)
  moreover have "?B < 18446744073709551616" using hb(1) by simp
  ultimately have nz: "(of_nat ?B :: 64 word) \<noteq> 0" using of_nat_inj64[of ?B 0] by simp
  show "get_size s (of_nat ?B) = Some (of_nat sz)" using l1 sz(2) by (rule get_size_tag)
  show "get_allocated s (of_nat ?B) = Some al" using l1 sz(2) nz by (rule get_allocated_tag)
  show "get_size s (of_nat (?B + sz + 8)) = Some (of_nat sz)" using l2 sz(2) by (rule get_size_tag)
  have "sz < 18446744073709551616" using hb(1) by simp
  then show "(of_nat sz :: 64 word) \<noteq> 0" using sz(1) by (intro tag_neq0)
qed

lemma read_prologue:
  assumes "heap_gen s bs fl N"
  shows "get_size s (heap_lo s) = Some 0"
proof -
  have "in_heap s (heap_lo s) 8" using assms by (simp add: in_heap_def heap_gen_def)
  moreover have "word_at (mem s) (heap_lo s) = 1" using assms by (simp add: heap_gen_def)
  ultimately show ?thesis by (simp add: get_size_def load64_def)
qed

lemma read_epilogue:
  assumes "heap_gen s bs fl N"
  shows "get_allocated s (brk s - 8) = Some True"
proof -
  note hb = heap_gen_bounds[OF assms]
  have b: "unat (brk s) = unat (heap_lo s) + 16 + span bs" using assms by (simp add: heap_gen_def)
  have l: "load64 s (of_nat (unat (heap_lo s) + 8 + span bs)) = Some (word_at (mem s) (of_nat (unat (heap_lo s) + 8 + span bs)))"
    by (rule load64_nat) (simp_all add: b)
  have "(of_nat (unat (heap_lo s) + 8 + span bs) :: 64 word) \<noteq> 0"
    using of_nat_inj64[of "unat (heap_lo s) + 8 + span bs" 0] hb(1) by simp
  moreover have "word_at (mem s) (brk s - 8) = 1" using assms by (simp add: heap_gen_def)
  ultimately show ?thesis using l unfolding hb(5) by (simp add: get_allocated_def)
qed

section \<open>Coalescing on a well-formed heap\<close>

lemma no_adj_cons: "no_adj ((s1, a1) # bs) = ((bs = [] \<or> a1 \<or> snd (hd bs)) \<and> no_adj bs)"
  by (cases bs) auto

lemma no_adj_append:
  "no_adj (xs @ ys) = (no_adj xs \<and> no_adj ys \<and> (xs = [] \<or> ys = [] \<or> snd (last xs) \<or> snd (hd ys)))"
proof (induction xs)
  case Nil
  then show ?case by simp
next
  case (Cons x xs)
  obtain s1 a1 where x: "x = (s1, a1)" by (cases x)
  show ?case
    unfolding x append_Cons no_adj_cons[of s1 a1] Cons.IH
    by (cases xs; cases ys) auto
qed

lemma prev_side:
  fixes s :: heap
  defines "L \<equiv> unat (heap_lo s)"
  assumes hg: "heap_gen s (bs1 @ (sz, al) # bs2) fl N"
  shows "\<exists>pf. get_size s (of_nat (L + 8 + span bs1) - 8) = Some pf \<and> (pf = 0) = (bs1 = []) \<and>
          (bs1 \<noteq> [] \<longrightarrow> pf = of_nat (fst (last bs1)) \<and>
             of_nat (L + 8 + span bs1) - pf - 16 = (of_nat (L + 8 + span (butlast bs1)) :: 64 word) \<and>
             get_allocated s (of_nat (L + 8 + span bs1) - pf - 16) = Some (snd (last bs1)))"
proof (cases bs1 rule: rev_cases)
  case Nil
  have "(of_nat (L + 8) :: 64 word) - 8 = heap_lo s" by (simp add: L_def)
  then show ?thesis using read_prologue[OF hg] Nil by simp
next
  case (snoc xs x)
  obtain szp alp where x: "x = (szp, alp)" by (cases x)
  have hg': "heap_gen s (xs @ (szp, alp) # ((sz, al) # bs2)) fl N" using hg snoc x by simp
  define P :: addr where "P = of_nat (L + 8 + span xs)"
  define Fp :: addr where "Fp = of_nat (L + 8 + span xs + szp + 8)"
  note r = read_block[OF hg', folded L_def, folded P_def Fp_def]
  have e1: "(of_nat (L + 8 + span bs1) :: 64 word) - 8 = Fp"
    unfolding snoc x Fp_def by simp
  have e2: "(of_nat (L + 8 + span bs1) :: 64 word) - of_nat szp - 16 = P"
    unfolding snoc x P_def by simp
  have e3: "(of_nat (L + 8 + span (butlast bs1)) :: 64 word) = P"
    unfolding snoc x P_def by simp
  have e4: "bs1 \<noteq> []" "last bs1 = (szp, alp)" unfolding snoc x by simp_all
  show ?thesis
    apply (rule exI[of _ "of_nat szp"])
    unfolding e1 e2 e3 using r e4 by simp
qed

lemma next_side:
  fixes s :: heap
  defines "L \<equiv> unat (heap_lo s)"
  assumes hg: "heap_gen s (bs1 @ (sz, al) # bs2) fl N"
  shows "get_allocated s (of_nat (L + 8 + span bs1) + of_nat sz + 16) = Some (bs2 = [] \<or> snd (hd bs2))"
proof (cases bs2)
  case Nil
  note hb = heap_gen_bounds[OF hg]
  have e: "(of_nat (L + 8 + span bs1) :: 64 word) + of_nat sz + 16 = brk s - 8"
    unfolding hb(5) Nil by (simp add: L_def)
  show ?thesis unfolding e using read_epilogue[OF hg] Nil by simp
next
  case (Cons y ys)
  obtain szn aln where y: "y = (szn, aln)" by (cases y)
  have hg': "heap_gen s ((bs1 @ [(sz, al)]) @ (szn, aln) # ys) fl N" using hg Cons y by simp
  define Nx :: addr where "Nx = of_nat (L + 8 + span (bs1 @ [(sz, al)]))"
  note r = read_block[OF hg', folded L_def, folded Nx_def]
  have e: "(of_nat (L + 8 + span bs1) :: 64 word) + of_nat sz + 16 = Nx"
    unfolding Nx_def by simp
  show ?thesis unfolding e using r(2) Cons y by simp
qed

lemma coalesce_heap_eq:
  fixes s :: heap
  defines "L \<equiv> unat (heap_lo s)"
  assumes hg: "heap_gen s (bs1 @ (sz, False) # bs2) fl N"
    and b: "b = of_nat (L + 8 + span bs1)" and z: "z = of_nat sz"
    and P: "P = of_nat (L + 8 + span (butlast bs1))"
    and pa: "pa = (bs1 = [] \<or> snd (last bs1))" and na: "na = (bs2 = [] \<or> snd (hd bs2))"
  shows "coalesce b s =
    (let prevBlock = (if bs1 = [] then 0 else P); nextBlock = b + z + 16 in
     if pa \<and> na then add_node b s
     else if pa \<and> \<not> na then
       do {
         nextSize \<leftarrow> get_size s nextBlock;
         let sz = z + (nextSize + 16);
         s1 \<leftarrow> remove_node nextBlock s;
         s2 \<leftarrow> write_value b (lsb_a sz 0) s1;
         s3 \<leftarrow> write_value (b + sz + 8) (lsb_a sz 0) s2;
         add_node b s3
       }
     else if \<not> pa \<and> na then
       do {
         prevSize \<leftarrow> get_size s prevBlock;
         let sz = z + (prevSize + 16);
         s1 \<leftarrow> remove_node prevBlock s;
         s2 \<leftarrow> write_value prevBlock (lsb_a sz 0) s1;
         s3 \<leftarrow> write_value (prevBlock + sz + 8) (lsb_a sz 0) s2;
         add_node prevBlock s3
       }
     else
       do {
         prevSize \<leftarrow> get_size s prevBlock;
         nextSize \<leftarrow> get_size s nextBlock;
         let sz = z + (prevSize + nextSize + 32);
         s1 \<leftarrow> remove_node prevBlock s;
         s2 \<leftarrow> remove_node nextBlock s1;
         s3 \<leftarrow> write_value prevBlock (lsb_a sz 0) s2;
         s4 \<leftarrow> write_value (prevBlock + sz + 8) (lsb_a sz 0) s3;
         add_node prevBlock s4
       })"
proof -
  from prev_side[OF hg, folded L_def, folded b] obtain pf where pf:
    "get_size s (b - 8) = Some pf" "(pf = 0) = (bs1 = [])"
    "bs1 \<noteq> [] \<longrightarrow> pf = of_nat (fst (last bs1)) \<and>
       b - pf - 16 = (of_nat (L + 8 + span (butlast bs1)) :: 64 word) \<and>
       get_allocated s (b - pf - 16) = Some (snd (last bs1))"
    by blast
  note r = read_block[OF hg, folded L_def]
  have f: "get_size s (b + z + 8) = Some z" using r(3) unfolding b z by simp
  have n: "get_allocated s (b + z + 16) = Some na"
    using next_side[OF hg, folded L_def] unfolding b z na by simp
  have g: "get_size s b = Some z" "z \<noteq> 0" using r(1,6) unfolding b z by simp_all
  have pp: "pf \<noteq> 0 \<longrightarrow> get_allocated s (b - pf - 16) = Some pa" "pf = 0 \<longrightarrow> pa"
    using pf unfolding pa by auto
  have pb: "(if pf = 0 then 0 else b - pf - 16) = (if bs1 = [] then 0 else P)"
    using pf unfolding P by auto
  show ?thesis
    using coalesce_eq[OF pf(1) g f pp n] unfolding pb .
qed

lemma merge_run:
  fixes s :: heap
  defines "L \<equiv> unat (heap_lo s)"
  assumes hg: "heap_gen s (xs @ mid @ ys) fl N" and mid: "mid \<noteq> []"
    and N: "N = set (free_nodes (L + 8) (xs @ mid @ ys)) - set (starts (L + 8 + span xs) mid)"
    and P: "P = of_nat (L + 8 + span xs)"
    and F: "F = of_nat (L + 8 + span xs + (span mid - 16) + 8)"
    and v: "v = tag (span mid - 16) False"
  shows "\<exists>s'. (do { s2 \<leftarrow> write_value P v s; s3 \<leftarrow> write_value F v s2; add_node P s3 }) = Some s' \<and>
           same_bounds s s' \<and>
           heap_rep s' (xs @ (span mid - 16, False) # ys) (of_nat (L + 8 + span xs + 8) # fl)"
proof -
  note hb = heap_gen_bounds[OF hg, folded L_def]
  have w: "wfb xs" "wfb mid" "wfb ys" using hb(2) by simp_all
  have sm: "32 \<le> span mid" using span_ge[OF w(2) mid] .
  have fl: "free_list s fl" "set fl = of_nat ` N" using hg by (simp_all add: heap_gen_def)
  have disj: "N \<inter> set (starts (L + 8 + span xs) mid) = {}" unfolding N by blast
  from merge_tail[OF hg mid same_except_refl fl subset_refl disj[unfolded L_def], folded L_def]
  obtain s' where s':
    "(do { s2 \<leftarrow> write_value P v s; s3 \<leftarrow> write_value F v s2; add_node P s3 }) = Some s'"
    "same_bounds s s'"
    "heap_gen s' (xs @ [(span mid - 16, False)] @ ys) (of_nat (L + 8 + span xs + 8) # fl)
       (insert (L + 8 + span xs + 8) N)"
    unfolding P F v by blast
  have l': "unat (heap_lo s') = L" using s'(2) by (simp add: same_bounds_def L_def)
  have r1: "\<forall>n\<in>set (free_nodes (L + 8) xs). n + 24 \<le> L + 8 + span xs"
    using nodes_range[OF w(1)] by blast
  have r2: "\<forall>n\<in>set (starts (L + 8 + span xs) mid). L + 8 + span xs + 8 \<le> n \<and> n + 24 \<le> L + 8 + span xs + span mid"
    using starts_range[OF w(2)] by blast
  have r3: "\<forall>n\<in>set (free_nodes (L + 8 + span xs + span mid) ys). L + 8 + span xs + span mid + 8 \<le> n"
    using nodes_range[OF w(3)] by blast
  have r4: "set (free_nodes (L + 8 + span xs) mid) \<subseteq> set (starts (L + 8 + span xs) mid)"
    by (rule free_nodes_starts)
  have N': "N = set (free_nodes (L + 8) xs) \<union> set (free_nodes (L + 8 + span xs + span mid) ys)"
  proof -
    have "set (free_nodes (L + 8) xs) \<inter> set (starts (L + 8 + span xs) mid) = {}"
      using r1 r2 by fastforce
    moreover have "set (free_nodes (L + 8 + span xs + span mid) ys) \<inter> set (starts (L + 8 + span xs) mid) = {}"
      using r3 r2 by fastforce
    ultimately show ?thesis using r4 unfolding N free_nodes_append set_append by blast
  qed
  have e: "insert (L + 8 + span xs + 8) N =
      set (free_nodes (L + 8) (xs @ (span mid - 16, False) # ys))"
  proof -
    have a: "L + 8 + span xs + (span mid - 16) + 16 = L + 8 + span xs + span mid" using sm by simp
    show ?thesis unfolding N' free_nodes_append free_nodes.simps a by auto
  qed
  have "heap_rep s' (xs @ (span mid - 16, False) # ys) (of_nat (L + 8 + span xs + 8) # fl)"
    unfolding heap_rep_gen l' e[symmetric] using s'(3) by simp
  then show ?thesis using s'(1,2) by blast
qed

lemma coalesce_TT:
  fixes s :: heap
  defines "L \<equiv> unat (heap_lo s)"
  assumes hg: "heap_gen s (bs1 @ (sz, False) # bs2) fl N"
    and N: "N = set (free_nodes (L + 8) (bs1 @ (sz, False) # bs2)) - {L + 8 + span bs1 + 8}"
    and pa: "bs1 = [] \<or> snd (last bs1)" and na: "bs2 = [] \<or> snd (hd bs2)"
  shows "\<exists>s' fl'. coalesce (of_nat (L + 8 + span bs1)) s = Some s' \<and> same_bounds s s' \<and>
           heap_rep s' (bs1 @ (sz, False) # bs2) fl'"
proof -
  define A where "A = L + 8 + span bs1"
  define b :: addr where "b = of_nat A"
  have p1: "True = (bs1 = [] \<or> snd (last bs1))" and n1: "True = (bs2 = [] \<or> snd (hd bs2))"
    using pa na by simp_all
  have co: "coalesce b s = add_node b s"
    unfolding coalesce_heap_eq[OF hg b_def[unfolded A_def L_def] refl refl p1 n1] Let_def by simp
  have st: "A + 8 \<in> set (starts (L + 8) (bs1 @ (sz, False) # bs2))"
    by (simp add: starts_append A_def)
  have nN: "A + 8 \<notin> N" unfolding N A_def by simp
  from heap_gen_add[OF hg st[unfolded L_def] nN] obtain s' where s':
    "add_node (of_nat (A + 8 - 8)) s = Some s'" "same_bounds s s'"
    "heap_gen s' (bs1 @ (sz, False) # bs2) (of_nat (A + 8) # fl) (insert (A + 8) N)"
    by blast
  have ins: "insert (A + 8) N = set (free_nodes (L + 8) (bs1 @ (sz, False) # bs2))"
    unfolding N A_def by (auto simp: free_nodes_append)
  have l': "unat (heap_lo s') = L" using s'(2) by (simp add: same_bounds_def L_def)
  have rep: "heap_rep s' (bs1 @ (sz, False) # bs2) (of_nat (A + 8) # fl)"
    unfolding heap_rep_gen l' ins[symmetric] by (rule s'(3))
  have "coalesce b s = Some s'" using s'(1) unfolding co by (simp add: b_def)
  then show ?thesis using s'(2) rep unfolding b_def A_def by blast
qed

lemma coalesce_TF:
  fixes s :: heap
  defines "L \<equiv> unat (heap_lo s)"
  assumes hg: "heap_gen s (bs1 @ (sz, False) # (szn, False) # ys) fl N"
    and N: "N = set (free_nodes (L + 8) (bs1 @ (sz, False) # (szn, False) # ys)) - {L + 8 + span bs1 + 8}"
    and pa: "bs1 = [] \<or> snd (last bs1)"
  shows "\<exists>s' fl'. coalesce (of_nat (L + 8 + span bs1)) s = Some s' \<and> same_bounds s s' \<and>
           heap_rep s' (bs1 @ (sz + szn + 16, False) # ys) fl'"
proof -
  define A where "A = L + 8 + span bs1"
  define b :: addr where "b = of_nat A"
  define z :: addr where "z = of_nat sz"
  define zn :: addr where "zn = of_nat szn"
  define Nx :: addr where "Nx = of_nat (A + sz + 16)"
  define mid where "mid = [(sz, False), (szn, False)]"
  define v where "v = tag (span mid - 16) False"
  define F :: addr where "F = of_nat (A + (span mid - 16) + 8)"
  have m: "span mid - 16 = sz + szn + 16" by (simp add: mid_def)
  have p1: "True = (bs1 = [] \<or> snd (last bs1))"
    and n1: "False = ((szn, False) # ys = [] \<or> snd (hd ((szn, False) # ys)))"
    using pa by simp_all
  note ce = coalesce_heap_eq[OF hg b_def[unfolded A_def L_def] z_def refl p1 n1]
  have hg2: "heap_gen s ((bs1 @ [(sz, False)]) @ (szn, False) # ys) fl N" using hg by simp
  have hgm: "heap_gen s (bs1 @ mid @ ys) fl N" using hg by (simp add: mid_def)
  have nx_eq: "b + z + 16 = Nx" unfolding b_def z_def Nx_def by simp
  have "of_nat (L + 8 + span (bs1 @ [(sz, False)])) = Nx" unfolding Nx_def A_def by (simp add: add.assoc)
  then have gs: "get_size s Nx = Some zn" using read_block(1)[OF hg2, folded L_def] unfolding zn_def by simp
  have nN: "A + sz + 24 \<in> N" unfolding N by (simp add: free_nodes_append A_def add.assoc)
  from heap_gen_remove[OF hgm nN] obtain s1 where s1:
    "remove_node (of_nat (A + sz + 24 - 8)) s = Some s1" "same_bounds s s1"
    "heap_gen s1 (bs1 @ mid @ ys) (remove1 (of_nat (A + sz + 24)) fl) (N - {A + sz + 24})"
    by blast
  have "(of_nat (A + sz + 24 - 8) :: 64 word) = Nx" unfolding Nx_def by simp
  then have rm: "remove_node Nx s = Some s1" using s1(1) by simp
  have l1: "unat (heap_lo s1) = L" using s1(2) by (simp add: same_bounds_def L_def)
  have N1: "N - {A + sz + 24} = set (free_nodes (L + 8) (bs1 @ mid @ ys)) - set (starts (L + 8 + span bs1) mid)"
    unfolding N mid_def A_def by (auto simp: add.assoc)
  from merge_run[where s = s1, unfolded l1, OF s1(3) _ N1 b_def[unfolded A_def] F_def[unfolded A_def] v_def]
  obtain s' where s':
    "(do { s2 \<leftarrow> write_value b v s1; s3 \<leftarrow> write_value F v s2; add_node b s3 }) = Some s'"
    "same_bounds s1 s'"
    "heap_rep s' (bs1 @ (span mid - 16, False) # ys) (of_nat (L + 8 + span bs1 + 8) # remove1 (of_nat (A + sz + 24)) fl)"
    unfolding mid_def by blast
  have sz_eq: "z + (zn + 16) = of_nat (span mid - 16)" unfolding m z_def zn_def by simp
  have v_eq: "lsb_a (z + (zn + 16)) 0 = v" unfolding sz_eq v_def tag_def by simp
  have "b + of_nat (span mid - 16) + 8 = F" unfolding b_def F_def by simp
  then have F_eq: "b + (z + (zn + 16)) + 8 = F" unfolding sz_eq .
  have "coalesce b s = Some s'" unfolding ce Let_def
    by (simp only: simp_thms if_True if_False nx_eq gs rm Option.bind.simps F_eq v_eq s'(1))
  then show ?thesis using same_bounds_trans[OF s1(2) s'(2)] s'(3) unfolding b_def A_def m by blast
qed

lemma coalesce_FT:
  fixes s :: heap
  defines "L \<equiv> unat (heap_lo s)"
  assumes hg: "heap_gen s (xs @ (szp, False) # (sz, False) # bs2) fl N"
    and N: "N = set (free_nodes (L + 8) (xs @ (szp, False) # (sz, False) # bs2)) -
                {L + 8 + span xs + szp + 16 + 8}"
    and na: "bs2 = [] \<or> snd (hd bs2)"
  shows "\<exists>s' fl'. coalesce (of_nat (L + 8 + span xs + szp + 16)) s = Some s' \<and> same_bounds s s' \<and>
           heap_rep s' (xs @ (szp + sz + 16, False) # bs2) fl'"
proof -
  define Ap where "Ap = L + 8 + span xs"
  define A where "A = Ap + szp + 16"
  define b :: addr where "b = of_nat A"
  define z :: addr where "z = of_nat sz"
  define zp :: addr where "zp = of_nat szp"
  define P :: addr where "P = of_nat Ap"
  define bs1 where "bs1 = xs @ [(szp, False)]"
  define mid where "mid = [(szp, False), (sz, False)]"
  define v where "v = tag (span mid - 16) False"
  define F :: addr where "F = of_nat (Ap + (span mid - 16) + 8)"
  have m: "span mid - 16 = szp + sz + 16" by (simp add: mid_def)
  have p1: "False = (bs1 = [] \<or> snd (last bs1))" and n1: "True = (bs2 = [] \<or> snd (hd bs2))"
    using na by (simp_all add: bs1_def)
  have hg1: "heap_gen s (bs1 @ (sz, False) # bs2) fl N" using hg by (simp add: bs1_def)
  have b1: "b = of_nat (unat (heap_lo s) + 8 + span bs1)"
    unfolding b_def A_def Ap_def bs1_def L_def by (simp add: add.assoc)
  have P1: "P = of_nat (unat (heap_lo s) + 8 + span (butlast bs1))"
    unfolding P_def Ap_def bs1_def L_def by simp
  note ce = coalesce_heap_eq[OF hg1 b1 z_def P1 p1 n1]
  have pP: "(if bs1 = [] then 0 else P) = P" by (simp add: bs1_def)
  have hgm: "heap_gen s (xs @ mid @ bs2) fl N" using hg by (simp add: mid_def)
  have gs: "get_size s P = Some zp"
    using read_block(1)[OF hg, folded L_def] unfolding zp_def P_def Ap_def by simp
  have nN: "Ap + 8 \<in> N" unfolding N by (simp add: free_nodes_append Ap_def add.assoc)
  from heap_gen_remove[OF hgm nN] obtain s1 where s1:
    "remove_node (of_nat (Ap + 8 - 8)) s = Some s1" "same_bounds s s1"
    "heap_gen s1 (xs @ mid @ bs2) (remove1 (of_nat (Ap + 8)) fl) (N - {Ap + 8})"
    by blast
  have rm: "remove_node P s = Some s1" using s1(1) unfolding P_def by simp
  have l1: "unat (heap_lo s1) = L" using s1(2) by (simp add: same_bounds_def L_def)
  have N1: "N - {Ap + 8} = set (free_nodes (L + 8) (xs @ mid @ bs2)) - set (starts (L + 8 + span xs) mid)"
    unfolding N mid_def Ap_def by (auto simp: add.assoc)
  from merge_run[where s = s1, unfolded l1, OF s1(3) _ N1 P_def[unfolded Ap_def] F_def[unfolded Ap_def] v_def]
  obtain s' where s':
    "(do { s2 \<leftarrow> write_value P v s1; s3 \<leftarrow> write_value F v s2; add_node P s3 }) = Some s'"
    "same_bounds s1 s'"
    "heap_rep s' (xs @ (span mid - 16, False) # bs2) (of_nat (L + 8 + span xs + 8) # remove1 (of_nat (Ap + 8)) fl)"
    unfolding mid_def by blast
  have sz_eq: "z + (zp + 16) = of_nat (span mid - 16)" unfolding m z_def zp_def by simp
  have v_eq: "lsb_a (z + (zp + 16)) 0 = v" unfolding sz_eq v_def tag_def by simp
  have "P + of_nat (span mid - 16) + 8 = F" unfolding P_def F_def by simp
  then have F_eq: "P + (z + (zp + 16)) + 8 = F" unfolding sz_eq .
  have "coalesce b s = Some s'" unfolding ce Let_def
    by (simp only: simp_thms if_True if_False pP gs rm Option.bind.simps F_eq v_eq s'(1))
  then show ?thesis using same_bounds_trans[OF s1(2) s'(2)] s'(3)
    unfolding b_def A_def Ap_def m by blast
qed

lemma coalesce_FF:
  fixes s :: heap
  defines "L \<equiv> unat (heap_lo s)"
  assumes hg: "heap_gen s (xs @ (szp, False) # (sz, False) # (szn, False) # ys) fl N"
    and N: "N = set (free_nodes (L + 8) (xs @ (szp, False) # (sz, False) # (szn, False) # ys)) -
                {L + 8 + span xs + szp + 16 + 8}"
  shows "\<exists>s' fl'. coalesce (of_nat (L + 8 + span xs + szp + 16)) s = Some s' \<and> same_bounds s s' \<and>
           heap_rep s' (xs @ (szp + sz + szn + 32, False) # ys) fl'"
proof -
  define Ap where "Ap = L + 8 + span xs"
  define A where "A = Ap + szp + 16"
  define b :: addr where "b = of_nat A"
  define z :: addr where "z = of_nat sz"
  define zp :: addr where "zp = of_nat szp"
  define zn :: addr where "zn = of_nat szn"
  define P :: addr where "P = of_nat Ap"
  define Nx :: addr where "Nx = of_nat (A + sz + 16)"
  define bs1 where "bs1 = xs @ [(szp, False)]"
  define bs2 where "bs2 = (szn, False) # ys"
  define mid where "mid = [(szp, False), (sz, False), (szn, False)]"
  define v where "v = tag (span mid - 16) False"
  define F :: addr where "F = of_nat (Ap + (span mid - 16) + 8)"
  have m: "span mid - 16 = szp + sz + szn + 32" by (simp add: mid_def)
  have p1: "False = (bs1 = [] \<or> snd (last bs1))" and n1: "False = (bs2 = [] \<or> snd (hd bs2))"
    by (simp_all add: bs1_def bs2_def)
  have hg1: "heap_gen s (bs1 @ (sz, False) # bs2) fl N" using hg by (simp add: bs1_def bs2_def)
  have b1: "b = of_nat (unat (heap_lo s) + 8 + span bs1)"
    unfolding b_def A_def Ap_def bs1_def L_def by (simp add: add.assoc)
  have P1: "P = of_nat (unat (heap_lo s) + 8 + span (butlast bs1))"
    unfolding P_def Ap_def bs1_def L_def by simp
  note ce = coalesce_heap_eq[OF hg1 b1 z_def P1 p1 n1]
  have pP: "(if bs1 = [] then 0 else P) = P" by (simp add: bs1_def)
  have nx_eq: "b + z + 16 = Nx" unfolding b_def z_def Nx_def by simp
  have hgm: "heap_gen s (xs @ mid @ ys) fl N" using hg by (simp add: mid_def)
  have hg2: "heap_gen s ((xs @ [(szp, False), (sz, False)]) @ (szn, False) # ys) fl N"
    using hg by simp
  have gsp: "get_size s P = Some zp"
    using read_block(1)[OF hg, folded L_def] unfolding zp_def P_def Ap_def by simp
  have "of_nat (L + 8 + span (xs @ [(szp, False), (sz, False)])) = Nx"
    unfolding Nx_def A_def Ap_def by (simp add: add.assoc)
  then have gsn: "get_size s Nx = Some zn"
    using read_block(1)[OF hg2, folded L_def] unfolding zn_def by simp
  have nN: "Ap + 8 \<in> N" unfolding N by (simp add: free_nodes_append Ap_def add.assoc)
  from heap_gen_remove[OF hgm nN] obtain s1 where s1:
    "remove_node (of_nat (Ap + 8 - 8)) s = Some s1" "same_bounds s s1"
    "heap_gen s1 (xs @ mid @ ys) (remove1 (of_nat (Ap + 8)) fl) (N - {Ap + 8})"
    by blast
  have rm1: "remove_node P s = Some s1" using s1(1) unfolding P_def by simp
  have nN2: "A + sz + 24 \<in> N - {Ap + 8}"
    unfolding N by (simp add: free_nodes_append A_def Ap_def add.assoc)
  from heap_gen_remove[OF s1(3) nN2] obtain s2 where s2:
    "remove_node (of_nat (A + sz + 24 - 8)) s1 = Some s2" "same_bounds s1 s2"
    "heap_gen s2 (xs @ mid @ ys) (remove1 (of_nat (A + sz + 24)) (remove1 (of_nat (Ap + 8)) fl))
       (N - {Ap + 8} - {A + sz + 24})"
    by blast
  have "(of_nat (A + sz + 24 - 8) :: 64 word) = Nx" unfolding Nx_def by simp
  then have rm2: "remove_node Nx s1 = Some s2" using s2(1) by simp
  have sb2: "same_bounds s s2" using same_bounds_trans[OF s1(2) s2(2)] .
  have l2: "unat (heap_lo s2) = L" using sb2 by (simp add: same_bounds_def L_def)
  have N2: "N - {Ap + 8} - {A + sz + 24} =
      set (free_nodes (L + 8) (xs @ mid @ ys)) - set (starts (L + 8 + span xs) mid)"
    unfolding N mid_def A_def Ap_def by (auto simp: add.assoc)
  from merge_run[where s = s2, unfolded l2, OF s2(3) _ N2 P_def[unfolded Ap_def] F_def[unfolded Ap_def] v_def]
  obtain s' where s':
    "(do { s3 \<leftarrow> write_value P v s2; s4 \<leftarrow> write_value F v s3; add_node P s4 }) = Some s'"
    "same_bounds s2 s'"
    "heap_rep s' (xs @ (span mid - 16, False) # ys)
       (of_nat (L + 8 + span xs + 8) # remove1 (of_nat (A + sz + 24)) (remove1 (of_nat (Ap + 8)) fl))"
    unfolding mid_def by blast
  have sz_eq: "z + (zp + zn + 32) = of_nat (span mid - 16)" unfolding m z_def zp_def zn_def by simp
  have v_eq: "lsb_a (z + (zp + zn + 32)) 0 = v" unfolding sz_eq v_def tag_def by simp
  have "P + of_nat (span mid - 16) + 8 = F" unfolding P_def F_def by simp
  then have F_eq: "P + (z + (zp + zn + 32)) + 8 = F" unfolding sz_eq .
  have "coalesce b s = Some s'" unfolding ce Let_def
    by (simp only: simp_thms if_True if_False pP nx_eq gsp gsn rm1 rm2 Option.bind.simps F_eq v_eq s'(1))
  then show ?thesis using same_bounds_trans[OF sb2 s'(2)] s'(3)
    unfolding b_def A_def Ap_def m by blast
qed

subsection \<open>The allocated blocks of a block list\<close>

fun allocs :: "nat \<Rightarrow> (nat \<times> bool) list \<Rightarrow> nat list" where
  "allocs a [] = []"
| "allocs a ((sz, al) # bs) = (if al then [a + 8] else []) @ allocs (a + sz + 16) bs"

lemma allocs_append: "allocs a (xs @ ys) = allocs a xs @ allocs (a + span xs) ys"
  by (induction a xs rule: allocs.induct) (auto simp: add.assoc)

lemma allocs_range: "wfb bs \<Longrightarrow> n \<in> set (allocs a bs) \<Longrightarrow> a + 8 \<le> n \<and> n + 24 \<le> a + span bs"
  by (induction a bs rule: allocs.induct) (fastforce split: if_splits)+

lemma allocs_free: "list_all (\<lambda>b. \<not> snd b) bs \<Longrightarrow> allocs a bs = []"
  by (induction a bs rule: allocs.induct) auto

lemma allocs_split:
  "n \<in> set (allocs a bs) \<Longrightarrow> \<exists>bs1 sz bs2. bs = bs1 @ (sz, True) # bs2 \<and> n = a + span bs1 + 8"
proof (induction a bs rule: allocs.induct)
  case (1 a)
  then show ?case by simp
next
  case (2 a sz al bs)
  show ?case
  proof (cases "n \<in> set (allocs (a + sz + 16) bs)")
    case True
    from "2.IH"[OF True] obtain bs1 sz' bs2 where
      "bs = bs1 @ (sz', True) # bs2" "n = a + sz + 16 + span bs1 + 8" by blast
    then have "(sz, al) # bs = ((sz, al) # bs1) @ (sz', True) # bs2 \<and> n = a + span ((sz, al) # bs1) + 8"
      by simp
    then show ?thesis by blast
  next
    case False
    then have "al" "n = a + 8" using "2.prems" by (auto split: if_splits)
    then have "(sz, al) # bs = [] @ (sz, True) # bs \<and> n = a + span [] + 8" by simp
    then show ?thesis by blast
  qed
qed

lemma allocs_merge:
  assumes "list_all (\<lambda>b. \<not> snd b) mid" "16 \<le> span mid"
  shows "allocs a (xs @ (span mid - 16, False) # ys) = allocs a (xs @ mid @ ys)"
proof -
  have e: "a + span xs + (span mid - 16) + 16 = a + span xs + span mid" using assms(2) by simp
  have "allocs (a + span xs) ((span mid - 16, False) # ys) = allocs (a + span xs + span mid) ys"
    unfolding allocs.simps e by simp
  moreover have "allocs (a + span xs) (mid @ ys) = allocs (a + span xs + span mid) ys"
    unfolding allocs_append[of _ mid] allocs_free[OF assms(1)] by simp
  ultimately show ?thesis unfolding allocs_append[of a xs] by simp
qed

lemma allocs_only:
  assumes "wfb bs1" "wfb bs2"
  shows "set (allocs a (bs1 @ (sz, False) # bs2)) =
         set (allocs a (bs1 @ (sz, True) # bs2)) - {a + span bs1 + 8}"
    "a + span bs1 + 8 \<notin> set (allocs a (bs1 @ (sz, False) # bs2))"
    "set (allocs a (bs1 @ (sz, True) # bs2)) =
       insert (a + span bs1 + 8) (set (allocs a (bs1 @ (sz, False) # bs2)))"
proof -
  have r1: "\<forall>n\<in>set (allocs a bs1). n + 24 \<le> a + span bs1"
    using allocs_range[OF assms(1)] by blast
  have r3: "\<forall>n\<in>set (allocs (a + span bs1 + (sz + 16)) bs2). a + span bs1 + (sz + 16) + 8 \<le> n"
    using allocs_range[OF assms(2)] by blast
  show "set (allocs a (bs1 @ (sz, False) # bs2)) =
         set (allocs a (bs1 @ (sz, True) # bs2)) - {a + span bs1 + 8}"
    unfolding allocs_append using r1 r3 by (fastforce simp: add.assoc)
  show "a + span bs1 + 8 \<notin> set (allocs a (bs1 @ (sz, False) # bs2))"
    unfolding allocs_append using r1 r3 by (fastforce simp: add.assoc)
  show "set (allocs a (bs1 @ (sz, True) # bs2)) =
       insert (a + span bs1 + 8) (set (allocs a (bs1 @ (sz, False) # bs2)))"
    unfolding allocs_append by (auto simp: add.assoc)
qed

subsection \<open>All four cases\<close>

lemma coalesce_heap:
  fixes s :: heap
  defines "L \<equiv> unat (heap_lo s)"
  assumes hg: "heap_gen s (bs1 @ (sz, False) # bs2) fl N"
    and N: "N = set (free_nodes (L + 8) (bs1 @ (sz, False) # bs2)) - {L + 8 + span bs1 + 8}"
    and na: "no_adj bs1" "no_adj bs2"
  shows "\<exists>s' xs m ys fl'. coalesce (of_nat (L + 8 + span bs1)) s = Some s' \<and> same_bounds s s' \<and>
     heap_rep s' (xs @ (m, False) # ys) fl' \<and> no_adj (xs @ (m, False) # ys) \<and>
     span xs \<le> span bs1 \<and> span bs1 + sz \<le> span xs + m \<and>
     allocs a (xs @ (m, False) # ys) = allocs a (bs1 @ (sz, False) # bs2)"
proof -
  consider (TT) "bs1 = [] \<or> snd (last bs1)" "bs2 = [] \<or> snd (hd bs2)"
    | (TF) szn ys where "bs1 = [] \<or> snd (last bs1)" "bs2 = (szn, False) # ys"
    | (FT) szp xs where "bs1 = xs @ [(szp, False)]" "bs2 = [] \<or> snd (hd bs2)"
    | (FF) szp xs szn ys where "bs1 = xs @ [(szp, False)]" "bs2 = (szn, False) # ys"
  proof -
    have a: "(bs1 = [] \<or> snd (last bs1)) \<or> (\<exists>szp xs. bs1 = xs @ [(szp, False)])"
      by (cases bs1 rule: rev_cases) auto
    have b: "(bs2 = [] \<or> snd (hd bs2)) \<or> (\<exists>szn ys. bs2 = (szn, False) # ys)"
      by (cases bs2) auto
    show ?thesis using a b that by blast
  qed
  then show ?thesis
  proof cases
    case TT
    from coalesce_TT[OF hg N[unfolded L_def] TT, folded L_def] obtain s' fl' where
      "coalesce (of_nat (L + 8 + span bs1)) s = Some s'" "same_bounds s s'"
      "heap_rep s' (bs1 @ (sz, False) # bs2) fl'" by blast
    moreover have "no_adj (bs1 @ (sz, False) # bs2)"
      using na TT by (simp add: no_adj_append no_adj_cons)
    ultimately show ?thesis
      by (intro exI[of _ s'] exI[of _ bs1] exI[of _ sz] exI[of _ bs2] exI[of _ fl']) simp
  next
    case TF
    have hg': "heap_gen s (bs1 @ (sz, False) # (szn, False) # ys) fl N" using hg unfolding TF(2) .
    from coalesce_TF[OF hg' N[unfolded L_def TF(2)] TF(1), folded L_def] obtain s' fl' where
      "coalesce (of_nat (L + 8 + span bs1)) s = Some s'" "same_bounds s s'"
      "heap_rep s' (bs1 @ (sz + szn + 16, False) # ys) fl'" by blast
    moreover have "no_adj (bs1 @ (sz + szn + 16, False) # ys)"
      using na TF by (simp add: no_adj_append no_adj_cons)
    moreover have "allocs a (bs1 @ (sz + szn + 16, False) # ys) = allocs a (bs1 @ (sz, False) # bs2)"
      using allocs_merge[of "[(sz, False), (szn, False)]" a bs1 ys] unfolding TF(2) by (simp add: ac_simps)
    ultimately show ?thesis
      by (intro exI[of _ s'] exI[of _ bs1] exI[of _ "sz + szn + 16"] exI[of _ ys] exI[of _ fl']) simp
  next
    case FT
    have hg': "heap_gen s (xs @ (szp, False) # (sz, False) # bs2) fl N" using hg unfolding FT(1) by (simp add: ac_simps)
    have e: "L + 8 + span bs1 = L + 8 + span xs + szp + 16" unfolding FT(1) by (simp add: ac_simps)
    have N': "N = set (free_nodes (L + 8) (xs @ (szp, False) # (sz, False) # bs2)) -
                {L + 8 + span xs + szp + 16 + 8}"
      using N unfolding e unfolding FT(1) by (simp add: ac_simps)
    from coalesce_FT[OF hg' N'[unfolded L_def] FT(2), folded L_def] obtain s' fl' where
      "coalesce (of_nat (L + 8 + span bs1)) s = Some s'" "same_bounds s s'"
      "heap_rep s' (xs @ (szp + sz + 16, False) # bs2) fl'" unfolding e by blast
    moreover have "no_adj (xs @ (szp + sz + 16, False) # bs2)"
      using na FT by (simp add: no_adj_append no_adj_cons)
    moreover have "span xs \<le> span bs1" "span bs1 + sz \<le> span xs + (szp + sz + 16)"
      unfolding FT(1) by simp_all
    moreover have "allocs a (xs @ (szp + sz + 16, False) # bs2) = allocs a (bs1 @ (sz, False) # bs2)"
      using allocs_merge[of "[(szp, False), (sz, False)]" a xs bs2] unfolding FT(1) by (simp add: ac_simps)
    ultimately show ?thesis
      by (intro exI[of _ s'] exI[of _ xs] exI[of _ "szp + sz + 16"] exI[of _ bs2] exI[of _ fl']) simp
  next
    case FF
    have hg': "heap_gen s (xs @ (szp, False) # (sz, False) # (szn, False) # ys) fl N"
      using hg unfolding FF by simp
    have e: "L + 8 + span bs1 = L + 8 + span xs + szp + 16" unfolding FF(1) by simp
    have N': "N = set (free_nodes (L + 8) (xs @ (szp, False) # (sz, False) # (szn, False) # ys)) -
                {L + 8 + span xs + szp + 16 + 8}"
      using N unfolding e unfolding FF by simp
    from coalesce_FF[OF hg' N'[unfolded L_def], folded L_def] obtain s' fl' where
      "coalesce (of_nat (L + 8 + span bs1)) s = Some s'" "same_bounds s s'"
      "heap_rep s' (xs @ (szp + sz + szn + 32, False) # ys) fl'" unfolding e by blast
    moreover have "no_adj (xs @ (szp + sz + szn + 32, False) # ys)"
      using na FF by (simp add: no_adj_append no_adj_cons)
    moreover have "span xs \<le> span bs1" "span bs1 + sz \<le> span xs + (szp + sz + szn + 32)"
      unfolding FF(1) by simp_all
    moreover have "allocs a (xs @ (szp + sz + szn + 32, False) # ys) = allocs a (bs1 @ (sz, False) # bs2)"
      using allocs_merge[of "[(szp, False), (sz, False), (szn, False)]" a xs ys] unfolding FF by (simp add: ac_simps)
    ultimately show ?thesis
      by (intro exI[of _ s'] exI[of _ xs] exI[of _ "szp + sz + szn + 32"] exI[of _ ys] exI[of _ fl']) simp
  qed
qed

lemma coalesce_again:
  assumes hr: "heap_rep s (xs @ (m, False) # ys) fl" and na: "no_adj (xs @ (m, False) # ys)"
  shows "coalesce (of_nat (unat (heap_lo s) + 8 + span xs)) s =
         add_node (of_nat (unat (heap_lo s) + 8 + span xs)) s"
proof -
  have p1: "True = (xs = [] \<or> snd (last xs))" and n1: "True = (ys = [] \<or> snd (hd ys))"
    using na by (simp_all add: no_adj_append no_adj_cons)
  show ?thesis
    unfolding coalesce_heap_eq[OF hr[unfolded heap_rep_gen] refl refl refl p1 n1] Let_def by simp
qed

lemma retag:
  fixes s :: heap
  defines "L \<equiv> unat (heap_lo s)"
  assumes hg: "heap_gen s (bs1 @ (sz, al) # bs2) fl N"
    and b: "b = of_nat (L + 8 + span bs1)" and F: "F = of_nat (L + 8 + span bs1 + sz + 8)"
    and v: "v = tag sz al'"
    and s1: "s1 = s\<lparr>mem := put_word b v (mem s)\<rparr>"
    and s2: "s2 = s1\<lparr>mem := put_word F v (mem s1)\<rparr>"
  shows "write_value b v s = Some s1" "get_size s1 b = Some (of_nat sz)"
    "write_value F v s1 = Some s2" "heap_gen s2 (bs1 @ (sz, al') # bs2) fl N"
proof -
  let ?a = "L + 8" and ?bs = "bs1 @ (sz, al) # bs2"
  define A where "A = L + 8 + span bs1"
  define G where "G = A + sz + 8"
  note hb = heap_gen_bounds[OF hg, folded L_def]
  have w: "wfb bs1" "16 \<le> sz" "16 dvd sz" "wfb bs2" using hb(2) by simp_all
  have br: "unat (brk s) = L + 16 + span ?bs" using hg by (simp add: heap_gen_def L_def)
  have flst: "set fl \<subseteq> of_nat ` set (starts ?a ?bs)" and Nst: "N \<subseteq> set (starts ?a ?bs)"
    and flN: "set fl = of_nat ` N" and fl0: "free_list s fl"
    using hg by (auto simp: heap_gen_def L_def)
  have Ld: "16 dvd L" using hg by (simp add: heap_gen_def L_def)
  have A8: "8 dvd A" "8 dvd G"
    using Ld wfb_span_dvd[OF w(1)] w(3) unfolding A_def G_def by presburger+
  have tA: "A \<in> tags ?a ?bs" "G \<in> tags ?a ?bs"
    by (simp_all add: tags_append A_def G_def)
  note nf = tag_not_lfields[OF hg tA(1)[unfolded L_def] flst[unfolded L_def]]
    tag_not_lfields[OF hg tA(2)[unfolded L_def] flst[unfolded L_def]]
  have rA: "L \<le> A" "A + 8 \<le> unat (brk s)" "L \<le> G" "G + 8 \<le> unat (brk s)" "A \<noteq> G"
    unfolding A_def G_def br by simp_all
  have al: "al8 (of_nat A :: 64 word)" "al8 (of_nat G :: 64 word)"
    using A8 by (simp_all add: al8_of_nat)
  have bA: "b = of_nat A" and FG: "F = of_nat G" unfolding b F A_def G_def by simp_all
  show st1: "write_value b v s = Some s1"
    unfolding write_value_def bA s1 using rA by (intro store64_nat) (simp_all add: L_def)
  show st2: "write_value F v s1 = Some s2"
    unfolding write_value_def FG s2 s1 using rA by (intro store64_nat) (simp_all add: L_def)
  have "load64 s1 (of_nat A) = Some (word_at (mem s1) (of_nat A))"
    unfolding s1 using rA by (intro load64_nat) (simp_all add: L_def)
  then have "load64 s1 b = Some (tag sz al')"
    unfolding s1 bA v using al by (simp add: word_at_put_al8)
  then show "get_size s1 b = Some (of_nat sz)" using w(3) by (rule get_size_tag)
  have f1: "free_list s1 fl" unfolding s1 bA using free_list_store[OF fl0 al(1) nf(1), of v] .
  have f2: "free_list s2 fl" unfolding s2 FG using free_list_store[OF f1 al(2) nf(2), of v] .
  have se: "same_except s s2 {of_nat A, of_nat G}"
  proof -
    have "same_except s s1 {of_nat A}" unfolding s1 bA using al by (intro same_except_store) simp_all
    moreover have "same_except s1 s2 {of_nat G}"
      unfolding s2 FG using al by (intro same_except_store) simp_all
    ultimately show ?thesis by (rule same_except_trans) auto
  qed
  have XX: "\<forall>w\<in>{of_nat A, of_nat G}. w \<in> nfields (unat (heap_lo s) + 8) (bs1 @ [(sz, al)] @ bs2) \<or>
              (\<exists>t. w = of_nat t \<and> unat (heap_lo s) + 8 + span bs1 \<le> t \<and>
                   t + 8 \<le> unat (heap_lo s) + 8 + span bs1 + span [(sz, al)])"
  proof -
    have "A \<le> A \<and> A + 8 \<le> A + span [(sz, al)]" "A \<le> G \<and> G + 8 \<le> A + span [(sz, al)]"
      unfolding G_def by simp_all
    then show ?thesis unfolding A_def L_def by blast
  qed
  have neq: "(of_nat A :: 64 word) \<noteq> of_nat G"
    using of_nat_inj64[of A G] rA unat_lt64[of "brk s"] by simp
  have v2: "word_at (mem s2) (of_nat A) = v" "word_at (mem s2) (of_nat G) = v"
    unfolding s2 s1 bA FG using al neq by (simp_all add: word_at_put_al8)
  have ch: "chain (mem s2) (unat (heap_lo s) + 8 + span bs1) [(sz, al')]"
    using v2 w unfolding v A_def L_def G_def by (simp add: add.assoc)
  have hg': "heap_gen s (bs1 @ [(sz, al)] @ bs2) fl N" using hg by simp
  have Nsub: "N \<subseteq> set (starts (unat (heap_lo s) + 8) (bs1 @ [(sz, al')] @ bs2))"
    using Nst by (simp add: starts_append L_def)
  have "heap_gen s2 (bs1 @ [(sz, al')] @ bs2) fl N"
    using f2 flN Nsub by (intro heap_gen_assemble[OF hg' se XX ch]) simp_all
  then show "heap_gen s2 (bs1 @ (sz, al') # bs2) fl N" by simp
qed

section \<open>Release on a well-formed heap\<close>

lemma free_heap:
  assumes hr: "heap_rep s (bs1 @ (sz, True) # bs2) fl" and na: "no_adj (bs1 @ (sz, True) # bs2)"
    and p: "p = of_nat (unat (heap_lo s) + 8 + span bs1 + 8)"
  shows "\<exists>s' xs m ys fl'. free p s = Some s' \<and> same_bounds s s' \<and>
     heap_rep s' (xs @ (m, False) # ys) fl' \<and> no_adj (xs @ (m, False) # ys) \<and>
     span xs \<le> span bs1 \<and> span bs1 + sz \<le> span xs + m \<and>
     set (allocs (unat (heap_lo s) + 8) (xs @ (m, False) # ys)) =
       set (allocs (unat (heap_lo s) + 8) (bs1 @ (sz, True) # bs2)) - {unat (heap_lo s) + 8 + span bs1 + 8}"
proof -
  define L where "L = unat (heap_lo s)"
  define A where "A = L + 8 + span bs1"
  define b :: addr where "b = of_nat A"
  define z :: addr where "z = of_nat sz"
  define F :: addr where "F = of_nat (A + sz + 8)"
  define v where "v = tag sz False"
  define s1 where "s1 = s\<lparr>mem := put_word b v (mem s)\<rparr>"
  define s2 where "s2 = s1\<lparr>mem := put_word F v (mem s1)\<rparr>"
  define N where "N = set (free_nodes (L + 8) (bs1 @ (sz, True) # bs2))"
  have hg: "heap_gen s (bs1 @ (sz, True) # bs2) fl N"
    using hr unfolding heap_rep_gen N_def L_def .
  note hb = heap_gen_bounds[OF hg, folded L_def]
  have w: "wfb bs1" "16 \<le> sz" "wfb bs2" using hb(2) by simp_all
  note rt = retag[OF hg b_def[unfolded A_def L_def] F_def[unfolded A_def L_def] v_def s1_def s2_def]
  note rb = read_block[OF hg, folded L_def, folded A_def, folded b_def z_def]
  have lt: "A + 8 < 18446744073709551616" using hb(1) w(2) unfolding A_def by simp
  have pne: "p \<noteq> 0" using of_nat_inj64[OF lt, of 0] unfolding p L_def[symmetric] A_def[symmetric] by simp
  have hdr: "p - 8 = b" unfolding p b_def A_def L_def by simp
  have lsb: "lsb_a z 0 = v" unfolding v_def tag_def z_def by simp
  have Feq: "b + z + 8 = F" unfolding b_def z_def F_def by simp
  have fr: "free p s = coalesce b s2"
    unfolding free_def Let_def
    by (simp only: pne if_False hdr rb(1,2) lsb rt(1,2,3)[folded z_def] Feq Option.bind.simps simp_thms)
  have r1: "\<forall>n\<in>set (free_nodes (L + 8) bs1). n + 24 \<le> L + 8 + span bs1"
    using nodes_range[OF w(1)] by blast
  have r3: "\<forall>n\<in>set (free_nodes (L + 8 + span bs1 + (sz + 16)) bs2). L + 8 + span bs1 + (sz + 16) + 8 \<le> n"
    using nodes_range[OF w(3)] by blast
  have N': "N = set (free_nodes (L + 8) (bs1 @ (sz, False) # bs2)) - {L + 8 + span bs1 + 8}"
    unfolding N_def free_nodes_append using r1 r3 by (fastforce simp: add.assoc)
  have l2: "unat (heap_lo s2) = L" unfolding s2_def s1_def L_def by simp
  have sb: "same_bounds s s2" unfolding s2_def s1_def same_bounds_def by simp
  have nn: "no_adj bs1" "no_adj bs2" using na by (simp_all add: no_adj_append no_adj_cons)
  from coalesce_heap[where s = s2 and a = "L + 8", unfolded l2, OF rt(4) N' nn]
  obtain s' xs m ys fl' where s': "coalesce (of_nat (L + 8 + span bs1)) s2 = Some s'"
    "same_bounds s2 s'" "heap_rep s' (xs @ (m, False) # ys) fl'" "no_adj (xs @ (m, False) # ys)"
    "span xs \<le> span bs1" "span bs1 + sz \<le> span xs + m"
    "allocs (L + 8) (xs @ (m, False) # ys) = allocs (L + 8) (bs1 @ (sz, False) # bs2)" by blast
  have al: "set (allocs (L + 8) (xs @ (m, False) # ys)) =
       set (allocs (L + 8) (bs1 @ (sz, True) # bs2)) - {L + 8 + span bs1 + 8}"
    unfolding s'(7) by (rule allocs_only(1)[OF w(1,3)])
  have "free p s = Some s'" unfolding fr b_def A_def using s'(1) .
  then show ?thesis using same_bounds_trans[OF sb s'(2)] s'(3-6) al[unfolded L_def] by blast
qed

lemma heap_holes_rep:
  "heap_rep heap_holes [(16, True), (16, False), (16, True), (16, False), (16, True), (3904, False)]
     [0x10070, 0x10030, 0x100B0] \<and> heap_lo heap_holes = 0x10000"
  by (simp add: heap_holes_def heap_init_def heap0_def eval_simps heap_rep_def free_list_def
      node_ok_def al16_def tag_def insert_commute)

section \<open>Placement on a well-formed heap\<close>

lemma inner_not_lfields:
  fixes s :: heap
  defines "L \<equiv> unat (heap_lo s)"
  assumes hg: "heap_gen s (bs1 @ (sz, al) # bs2) fl N"
    and t: "L + 8 + span bs1 + 24 \<le> t" "t + 8 \<le> L + 8 + span bs1 + sz + 16"
    and xs: "set xs \<subseteq> of_nat ` set (starts (L + 8) (bs1 @ (sz, al) # bs2))"
  shows "of_nat t \<notin> lfields xs"
proof
  note hb = heap_gen_bounds[OF hg, folded L_def]
  have w: "wfb bs1" "wfb bs2" using hb(2) by simp_all
  assume "of_nat t \<in> lfields xs"
  then obtain n where n: "n \<in> set (starts (L + 8) (bs1 @ (sz, al) # bs2))"
    "(of_nat t :: 64 word) = of_nat n \<or> (of_nat t :: 64 word) = of_nat n + 8"
    using xs by (auto simp: lfields_def)
  have "n + 24 \<le> L + 8 + span bs1 \<or> n = L + 8 + span bs1 + 8 \<or> L + 8 + span bs1 + sz + 16 + 8 \<le> n"
    using n(1) starts_range[OF w(1), of n "L + 8"] starts_range[OF w(2), of n "L + 8 + span bs1 + sz + 16"]
    by (auto simp: starts_append add.assoc)
  then have ne: "t \<noteq> n" "t \<noteq> n + 8" using t by linarith+
  have "n + 24 \<le> L + 8 + span (bs1 @ (sz, al) # bs2)" using starts_range[OF hb(2) n(1)] by simp
  then have b: "t < 18446744073709551616" "n < 18446744073709551616" "n + 8 < 18446744073709551616"
    using hb(1) t by simp_all
  have "(of_nat t :: 64 word) \<noteq> of_nat n" "(of_nat t :: 64 word) \<noteq> of_nat (n + 8)"
    using ne b of_nat_inj64[of t n] of_nat_inj64[of t "n + 8"] by blast+
  then show False using n(2) by simp
qed

lemma free_nodes_only:
  assumes "wfb bs1" "wfb bs2"
  shows "set (free_nodes a (bs1 @ (sz, True) # bs2)) =
         set (free_nodes a (bs1 @ (sz, False) # bs2)) - {a + span bs1 + 8}"
proof -
  have r1: "\<forall>n\<in>set (free_nodes a bs1). n + 24 \<le> a + span bs1"
    using nodes_range[OF assms(1)] by blast
  have r3: "\<forall>n\<in>set (free_nodes (a + span bs1 + (sz + 16)) bs2). a + span bs1 + (sz + 16) + 8 \<le> n"
    using nodes_range[OF assms(2)] by blast
  show ?thesis unfolding free_nodes_append using r1 r3 by (fastforce simp: add.assoc)
qed

lemma place_keep:
  fixes s :: heap
  defines "L \<equiv> unat (heap_lo s)"
  assumes hr: "heap_rep s (bs1 @ (sz, False) # bs2) fl"
    and b: "b = of_nat (L + 8 + span bs1)" and z: "z = of_nat sz"
  shows "\<exists>s' fl'. (do { s1 \<leftarrow> write_value b (lsb_a z 1) s;
                        s2 \<leftarrow> write_value (b + z + 8) (lsb_a z 1) s1;
                        remove_node b s2 }) = Some s' \<and> same_bounds s s' \<and>
           heap_rep s' (bs1 @ (sz, True) # bs2) fl'"
proof -
  define A where "A = L + 8 + span bs1"
  define F :: addr where "F = of_nat (A + sz + 8)"
  define v where "v = tag sz True"
  define s1 where "s1 = s\<lparr>mem := put_word b v (mem s)\<rparr>"
  define s2 where "s2 = s1\<lparr>mem := put_word F v (mem s1)\<rparr>"
  define N where "N = set (free_nodes (L + 8) (bs1 @ (sz, False) # bs2))"
  have hg: "heap_gen s (bs1 @ (sz, False) # bs2) fl N"
    using hr unfolding heap_rep_gen N_def L_def .
  note hb = heap_gen_bounds[OF hg, folded L_def]
  have w: "wfb bs1" "wfb bs2" using hb(2) by simp_all
  note rt = retag[OF hg b[unfolded L_def] F_def[unfolded A_def L_def] v_def s1_def s2_def]
  have lsb: "lsb_a z 1 = v" unfolding v_def tag_def z by simp
  have Feq: "b + z + 8 = F" unfolding b z F_def A_def by simp
  have nN: "A + 8 \<in> N" unfolding N_def A_def by (simp add: free_nodes_append)
  from heap_gen_remove[OF rt(4) nN] obtain s' where s':
    "remove_node (of_nat (A + 8 - 8)) s2 = Some s'" "same_bounds s2 s'"
    "heap_gen s' (bs1 @ (sz, True) # bs2) (remove1 (of_nat (A + 8)) fl) (N - {A + 8})"
    by blast
  have e: "(of_nat (A + 8 - 8) :: addr) = b" unfolding b A_def by simp
  have rm: "remove_node b s2 = Some s'" using s'(1) unfolding e .
  have sb: "same_bounds s s2" unfolding s2_def s1_def same_bounds_def by simp
  have l': "unat (heap_lo s') = L" using same_bounds_trans[OF sb s'(2)] by (simp add: same_bounds_def L_def)
  have N': "N - {A + 8} = set (free_nodes (L + 8) (bs1 @ (sz, True) # bs2))"
    unfolding N_def A_def free_nodes_only[OF w] by (simp add: add.assoc)
  have rep: "heap_rep s' (bs1 @ (sz, True) # bs2) (remove1 (of_nat (A + 8)) fl)"
    unfolding heap_rep_gen l' N'[symmetric] by (rule s'(3))
  have "(do { s1 \<leftarrow> write_value b (lsb_a z 1) s;
              s2 \<leftarrow> write_value (b + z + 8) (lsb_a z 1) s1;
              remove_node b s2 }) = Some s'"
    by (simp only: lsb Feq rt(1,3) rm Option.bind.simps)
  then show ?thesis using same_bounds_trans[OF sb s'(2)] rep by blast
qed

lemma split_heap:
  fixes s :: heap
  defines "L \<equiv> unat (heap_lo s)"
  assumes hr: "heap_rep s (bs1 @ (sz0, False) # bs2) fl"
    and nx: "bs2 = [] \<or> snd (hd bs2)"
    and a: "16 \<le> asz" "16 dvd asz" "asz + 32 \<le> sz0"
    and b: "b = of_nat (L + 8 + span bs1)" and z: "z = of_nat asz"
  shows "\<exists>s' fl'. split b z s = Some s' \<and> same_bounds s s' \<and>
           heap_rep s' (bs1 @ (asz, True) # (sz0 - asz - 16, False) # bs2) fl'"
proof -
  let ?a = "L + 8" and ?bs = "bs1 @ (sz0, False) # bs2"
  define N where "N = set (free_nodes ?a ?bs)"
  have hg: "heap_gen s ?bs fl N" using hr unfolding heap_rep_gen N_def L_def .
  note hb = heap_gen_bounds[OF hg, folded L_def]
  have w: "wfb bs1" "16 \<le> sz0" "16 dvd sz0" "wfb bs2" using hb(2) by simp_all
  define A where "A = L + 8 + span bs1"
  define rest where "rest = sz0 - asz - 16"
  define a2 where "a2 = A + asz + 8"
  define a3 where "a3 = A + asz + 16"
  define a4 where "a4 = A + sz0 + 8"
  define v1 where "v1 = tag asz True"
  define v2 where "v2 = tag rest False"
  define z0 :: addr where "z0 = of_nat sz0"
  define mid where "mid = [(sz0, False)]"
  define mid' where "mid' = [(asz, True), (rest, False)]"
  have rs: "16 \<le> rest" "16 dvd rest" "asz + 16 + rest = sz0"
    using a w(3) unfolding rest_def by (simp, presburger, simp)
  have sp: "span mid' = span mid" unfolding mid_def mid'_def using rs(3) by simp
  have br: "unat (brk s) = L + 16 + span ?bs" using hg by (simp add: heap_gen_def L_def)
  have flst: "set fl \<subseteq> of_nat ` set (starts ?a ?bs)" and Nst: "N \<subseteq> set (starts ?a ?bs)"
    and flN: "set fl = of_nat ` N" and fl0: "free_list s fl"
    using hg by (auto simp: heap_gen_def L_def)
  have Ld: "16 dvd L" using hg by (simp add: heap_gen_def L_def)
  have d8: "8 dvd A" "8 dvd a2" "8 dvd a3" "8 dvd a4"
    using Ld wfb_span_dvd[OF w(1)] a(2) w(3) unfolding A_def a2_def a3_def a4_def by presburger+
  have al: "al8 (of_nat A :: 64 word)" "al8 (of_nat a2 :: 64 word)" "al8 (of_nat a3 :: 64 word)"
    "al8 (of_nat a4 :: 64 word)"
    using d8 by (simp_all add: al8_of_nat)
  have rg: "L \<le> A" "a4 + 8 \<le> unat (brk s)" "A < a2" "a2 < a3" "a3 < a4"
    unfolding A_def a2_def a3_def a4_def br using a by simp_all
  have lt: "a4 + 8 < 18446744073709551616" using rg(2) unat_lt64[of "brk s"] by linarith
  have neq: "(of_nat A :: 64 word) \<noteq> of_nat a2" "(of_nat A :: 64 word) \<noteq> of_nat a3"
    "(of_nat A :: 64 word) \<noteq> of_nat a4" "(of_nat a2 :: 64 word) \<noteq> of_nat a3"
    "(of_nat a2 :: 64 word) \<noteq> of_nat a4" "(of_nat a3 :: 64 word) \<noteq> of_nat a4"
    using rg lt of_nat_inj64[of A a2] of_nat_inj64[of A a3] of_nat_inj64[of A a4]
      of_nat_inj64[of a2 a3] of_nat_inj64[of a2 a4] of_nat_inj64[of a3 a4] by simp_all
  have tA: "A \<in> tags ?a ?bs" "a4 \<in> tags ?a ?bs"
    by (simp_all add: tags_append A_def a4_def)
  have nfx: "of_nat A \<notin> lfields xs" "of_nat a2 \<notin> lfields xs" "of_nat a3 \<notin> lfields xs"
    "of_nat a4 \<notin> lfields xs"
    if xs: "set xs \<subseteq> of_nat ` set (starts ?a ?bs)" for xs
  proof -
    show "of_nat A \<notin> lfields xs"
      by (rule tag_not_lfields[OF hg tA(1)[unfolded L_def] xs[unfolded L_def]])
    show "of_nat a4 \<notin> lfields xs"
      by (rule tag_not_lfields[OF hg tA(2)[unfolded L_def] xs[unfolded L_def]])
    show "of_nat a2 \<notin> lfields xs"
      using a by (intro inner_not_lfields[OF hg _ _ xs[unfolded L_def]]) (simp_all add: a2_def A_def L_def)
    show "of_nat a3 \<notin> lfields xs"
      using a by (intro inner_not_lfields[OF hg _ _ xs[unfolded L_def]]) (simp_all add: a3_def A_def L_def)
  qed
  define s1 where "s1 = s\<lparr>mem := put_word (of_nat A) v1 (mem s)\<rparr>"
  define s2 where "s2 = s1\<lparr>mem := put_word (of_nat a2) v1 (mem s1)\<rparr>"
  have st1: "write_value (of_nat A) v1 s = Some s1"
    unfolding write_value_def s1_def using rg by (intro store64_nat) (simp_all add: L_def)
  have st2: "write_value (of_nat a2) v1 s1 = Some s2"
    unfolding write_value_def s2_def s1_def using rg by (intro store64_nat) (simp_all add: L_def)
  have f1: "free_list s1 fl" unfolding s1_def using free_list_store[OF fl0 al(1) nfx(1)[OF flst], of v1] .
  have f2: "free_list s2 fl" unfolding s2_def using free_list_store[OF f1 al(2) nfx(2)[OF flst], of v1] .
  define c :: addr where "c = of_nat (A + 8)"
  have nN: "A + 8 \<in> N" unfolding N_def A_def by (simp add: free_nodes_append)
  have cfl: "c \<in> set fl" unfolding flN c_def using nN by (rule imageI)
  from remove_node_frame[OF f2 cfl] obtain s3 where s3:
    "remove_node (c - 8) s2 = Some s3" "free_list s3 (remove1 c fl)" "same_except s2 s3 (lfields fl)"
    by blast
  have c8: "c - 8 = of_nat A" by (simp add: c_def)
  define fl3 where "fl3 = remove1 c fl"
  have fl3st: "set fl3 \<subseteq> of_nat ` set (starts ?a ?bs)"
    using flst set_remove1_subset[of c fl] unfolding fl3_def by blast
  have sb3: "heap_lo s3 = heap_lo s" "brk s3 = brk s"
    using s3(3) by (simp_all add: same_except_def s2_def s1_def)
  define s4 where "s4 = s3\<lparr>mem := put_word (of_nat a3) v2 (mem s3)\<rparr>"
  define s5 where "s5 = s4\<lparr>mem := put_word (of_nat a4) v2 (mem s4)\<rparr>"
  have st3: "write_value (of_nat a3) v2 s3 = Some s4"
    unfolding write_value_def s4_def using rg sb3 by (intro store64_nat) (simp_all add: L_def)
  have st4: "write_value (of_nat a4) v2 s4 = Some s5"
    unfolding write_value_def s5_def s4_def using rg sb3 by (intro store64_nat) (simp_all add: L_def)
  have f4: "free_list s4 fl3"
    unfolding s4_def using free_list_store[OF s3(2)[folded fl3_def] al(3) nfx(3)[OF fl3st], of v2] .
  have f5: "free_list s5 fl3"
    unfolding s5_def using free_list_store[OF f4 al(4) nfx(4)[OF fl3st], of v2] .
  define X where "X = {of_nat A, of_nat a2, of_nat a3, of_nat a4} \<union> lfields fl"
  have se: "same_except s s5 X"
  proof -
    have "same_except s s1 {of_nat A}" unfolding s1_def using al by (intro same_except_store) simp_all
    moreover have "same_except s1 s2 {of_nat a2}"
      unfolding s2_def using al by (intro same_except_store) simp_all
    ultimately have "same_except s s2 {of_nat A, of_nat a2}" by (rule same_except_trans) auto
    then have 3: "same_except s s3 ({of_nat A, of_nat a2} \<union> lfields fl)"
      using s3(3) by (rule same_except_trans) auto
    have "same_except s3 s4 {of_nat a3}" unfolding s4_def using al by (intro same_except_store) simp_all
    moreover have "same_except s4 s5 {of_nat a4}"
      unfolding s5_def using al by (intro same_except_store) simp_all
    ultimately have "same_except s3 s5 {of_nat a3, of_nat a4}" by (rule same_except_trans) auto
    with 3 show ?thesis unfolding X_def by (rule same_except_trans) auto
  qed
  have XX: "\<forall>w\<in>X. w \<in> nfields (unat (heap_lo s) + 8) (bs1 @ mid @ bs2) \<or>
              (\<exists>t. w = of_nat t \<and> unat (heap_lo s) + 8 + span bs1 \<le> t \<and>
                   t + 8 \<le> unat (heap_lo s) + 8 + span bs1 + span mid)"
  proof
    fix w assume "w \<in> X"
    then consider "w \<in> lfields fl" | "w = of_nat A" | "w = of_nat a2" | "w = of_nat a3" | "w = of_nat a4"
      unfolding X_def by blast
    then show "w \<in> nfields (unat (heap_lo s) + 8) (bs1 @ mid @ bs2) \<or>
              (\<exists>t. w = of_nat t \<and> unat (heap_lo s) + 8 + span bs1 \<le> t \<and>
                   t + 8 \<le> unat (heap_lo s) + 8 + span bs1 + span mid)"
    proof cases
      case 1
      then show ?thesis using lfields_subset_nfields[OF flst] by (auto simp: L_def mid_def)
    next
      case 2
      have "A \<le> A \<and> A + 8 \<le> A + span mid" unfolding mid_def by simp
      then show ?thesis unfolding 2 A_def L_def by blast
    next
      case 3
      have "A \<le> a2 \<and> a2 + 8 \<le> A + span mid" unfolding mid_def a2_def using a by simp
      then show ?thesis unfolding 3 A_def L_def by blast
    next
      case 4
      have "A \<le> a3 \<and> a3 + 8 \<le> A + span mid" unfolding mid_def a3_def using a by simp
      then show ?thesis unfolding 4 A_def L_def by blast
    next
      case 5
      have "A \<le> a4 \<and> a4 + 8 \<le> A + span mid" unfolding mid_def a4_def by simp
      then show ?thesis unfolding 5 A_def L_def by blast
    qed
  qed
  have w2: "word_at (mem s2) (of_nat A) = v1" "word_at (mem s2) (of_nat a2) = v1"
    unfolding s2_def s1_def using al neq by (simp_all add: word_at_put_al8)
  have w3: "word_at (mem s3) (of_nat A) = v1" "word_at (mem s3) (of_nat a2) = v1"
    using s3(3) al nfx(1,2)[OF flst] w2 unfolding same_except_def by metis+
  have w5: "word_at (mem s5) (of_nat A) = v1" "word_at (mem s5) (of_nat a2) = v1"
    "word_at (mem s5) (of_nat a3) = v2" "word_at (mem s5) (of_nat a4) = v2"
    unfolding s5_def s4_def using al neq w3 by (simp_all add: word_at_put_al8)
  have e4: "a3 + rest + 8 = a4" unfolding a3_def a4_def using rs(3) by simp
  have ch: "chain (mem s5) A mid'"
    unfolding mid'_def using w5 a rs e4
    by (simp add: a2_def[symmetric] a3_def[symmetric] v1_def v2_def)
  define N3 where "N3 = N - {A + 8}"
  have d: "distinct fl" using fl0 by (simp add: free_list_def)
  have flN3: "set fl3 = of_nat ` N3"
    unfolding fl3_def N3_def c_def using d flN of_nat_image_diff[OF heap_gen_lt(1)[OF hg] nN] by simp
  have N3sub: "N3 \<subseteq> set (starts (unat (heap_lo s) + 8) (bs1 @ mid' @ bs2))"
  proof -
    have "set (starts (?a + span bs1) mid) \<subseteq> set (starts (?a + span bs1) mid')"
      by (simp add: mid_def mid'_def)
    moreover have "N \<subseteq> set (starts ?a (bs1 @ mid @ bs2))" using Nst by (simp add: mid_def)
    ultimately show ?thesis unfolding N3_def starts_append span_append sp L_def set_append by blast
  qed
  have hg': "heap_gen s (bs1 @ mid @ bs2) fl N" using hg by (simp add: mid_def)
  have ne: "bs1 @ mid' @ bs2 \<noteq> []" by (simp add: mid'_def)
  have hg5: "heap_gen s5 (bs1 @ mid' @ bs2) fl3 N3"
    by (rule heap_gen_assemble[OF hg' se XX ch[unfolded A_def L_def] sp ne f5 flN3 N3sub])
  have l5: "unat (heap_lo s5) = L" unfolding s5_def s4_def using sb3 by (simp add: L_def)
  have sb5: "same_bounds s s5" using se by (rule same_except_bounds)
  have hg5': "heap_gen s5 ((bs1 @ [(asz, True)]) @ (rest, False) # bs2) fl3 N3"
    using hg5 by (simp add: mid'_def)
  define NX :: addr where "NX = of_nat a3 + of_nat rest + 16"
  have e: "of_nat (L + 8 + span (bs1 @ [(asz, True)])) = (of_nat a3 :: addr)"
    unfolding a3_def A_def by (simp add: add.assoc)
  have ga: "get_allocated s5 NX = Some True"
    using next_side[OF hg5', unfolded l5 e] nx unfolding NX_def by simp
  have r1: "\<forall>n\<in>set (free_nodes ?a bs1). n + 24 \<le> A"
    using nodes_range[OF w(1)] unfolding A_def by blast
  have r3: "\<forall>n\<in>set (free_nodes (A + sz0 + 16) bs2). A + sz0 + 16 + 8 \<le> n"
    using nodes_range[OF w(4)] by blast
  have N3eq: "N3 = set (free_nodes ?a bs1) \<union> set (free_nodes (A + sz0 + 16) bs2)"
    unfolding N3_def N_def free_nodes_append using r1 r3 by (fastforce simp: A_def add.assoc)
  have stn: "a3 + 8 \<in> set (starts (unat (heap_lo s5) + 8) (bs1 @ mid' @ bs2))"
    unfolding l5 by (simp add: starts_append mid'_def a3_def A_def add.assoc)
  have nN3: "a3 + 8 \<notin> N3" unfolding N3eq using r1 r3 a by (fastforce simp: a3_def)
  from heap_gen_add[OF hg5 stn nN3] obtain s' where s':
    "add_node (of_nat (a3 + 8 - 8)) s5 = Some s'" "same_bounds s5 s'"
    "heap_gen s' (bs1 @ mid' @ bs2) (of_nat (a3 + 8) # fl3) (insert (a3 + 8) N3)"
    by blast
  have an: "add_node (of_nat a3) s5 = Some s'" using s'(1) by simp
  have e6: "A + asz + 16 + rest + 16 = A + sz0 + 16" using rs(3) by simp
  have ins: "insert (a3 + 8) N3 = set (free_nodes ?a (bs1 @ mid' @ bs2))"
  proof -
    have f1: "free_nodes A ((asz, True) # (rest, False) # bs2) =
        [A + asz + 16 + 8] @ free_nodes (A + asz + 16 + rest + 16) bs2"
      by simp
    have f2: "free_nodes ?a (bs1 @ mid' @ bs2) =
        free_nodes ?a bs1 @ free_nodes A ((asz, True) # (rest, False) # bs2)"
      unfolding mid'_def append_Cons append_Nil free_nodes_append A_def ..
    show ?thesis unfolding N3eq f2 f1[unfolded e6] by (auto simp: a3_def)
  qed
  have sb: "same_bounds s s'" using same_bounds_trans[OF sb5 s'(2)] .
  have l': "unat (heap_lo s') = L" using sb by (simp add: same_bounds_def L_def)
  have rep: "heap_rep s' (bs1 @ mid' @ bs2) (of_nat (a3 + 8) # fl3)"
    unfolding heap_rep_gen l' ins[symmetric] by (rule s'(3))
  have gs: "get_size s (of_nat A) = Some z0"
    using read_block(1)[OF hg, folded L_def] unfolding A_def z0_def .
  have lsb1: "lsb_a z 1 = v1" unfolding v1_def tag_def z by simp
  have rsz: "z0 - z - 16 = (of_nat rest :: addr)" unfolding z0_def z rs(3)[symmetric] by simp
  have lsb2: "lsb_a (of_nat rest) 0 = v2" unfolding v2_def tag_def by simp
  have q2: "of_nat A + z + 8 = (of_nat a2 :: addr)" unfolding z a2_def by simp
  have q3: "of_nat A + z + 16 = (of_nat a3 :: addr)" unfolding z a3_def by simp
  have q4: "of_nat a3 + of_nat rest + 8 = (of_nat a4 :: addr)" unfolding e4[symmetric] by simp
  have bA: "b = of_nat A" unfolding b A_def ..
  have "split b z s = Some s'"
    unfolding split_def Let_def bA
    by (simp only: gs lsb1 rsz lsb2 q2 q3 q4 st1 st2 s3(1)[unfolded c8] st3 st4 NX_def[symmetric] ga an
        Option.bind.simps simp_thms if_False)
  then show ?thesis using sb rep unfolding mid'_def rest_def by auto
qed

lemma place_heap:
  fixes s :: heap
  defines "L \<equiv> unat (heap_lo s)"
  assumes hr: "heap_rep s (bs1 @ (sz0, False) # bs2) fl"
    and na: "no_adj (bs1 @ (sz0, False) # bs2)"
    and a: "16 \<le> asz" "16 dvd asz" "asz \<le> sz0"
    and b: "b = of_nat (L + 8 + span bs1)" and z: "z = of_nat asz"
  shows "\<exists>s' m ys fl'. place b z s = Some s' \<and> same_bounds s s' \<and>
           heap_rep s' (bs1 @ (m, True) # ys) fl' \<and> no_adj (bs1 @ (m, True) # ys) \<and> asz \<le> m \<and>
           set (allocs (L + 8) (bs1 @ (m, True) # ys)) =
             insert (L + 8 + span bs1 + 8) (set (allocs (L + 8) (bs1 @ (sz0, False) # bs2))) \<and>
           L + 8 + span bs1 + 8 \<notin> set (allocs (L + 8) (bs1 @ (sz0, False) # bs2))"
proof -
  define z0 :: addr where "z0 = of_nat sz0"
  have hg: "heap_gen s (bs1 @ (sz0, False) # bs2) fl (set (free_nodes (L + 8) (bs1 @ (sz0, False) # bs2)))"
    using hr unfolding heap_rep_gen L_def .
  note hb = heap_gen_bounds[OF hg, folded L_def]
  have lt: "sz0 < 18446744073709551616" using hb(1) by simp
  have gs: "get_size s b = Some z0"
    using read_block(1)[OF hg, folded L_def] unfolding b z0_def .
  define k where "k = sz0 - asz"
  have d: "z0 - z = of_nat k" unfolding z0_def z k_def using a(3) by (simp add: of_nat_diff)
  have uk: "unat (of_nat k :: addr) = k" using lt unfolding k_def by (intro unat_of_nat64) simp
  have cond: "(32 \<le> z0 - z) = (asz + 32 \<le> sz0)"
    unfolding d word_le_nat_alt uk using a(3) unfolding k_def by (simp, linarith)
  have nn: "no_adj bs1" "no_adj bs2" "bs2 = [] \<or> snd (hd bs2)"
    using na by (simp_all add: no_adj_append no_adj_cons)
  have w: "wfb bs1" "wfb bs2" using hb(2) by simp_all
  note ao = allocs_only[OF w, of "L + 8" sz0]
  have old: "allocs (L + 8) (bs1 @ (sz0, False) # bs2) =
      allocs (L + 8) bs1 @ allocs (L + 8 + span bs1 + sz0 + 16) bs2"
    unfolding allocs_append allocs.simps by simp
  show ?thesis
  proof (cases "asz + 32 \<le> sz0")
    case True
    from split_heap[OF hr nn(3) a(1,2) True b[unfolded L_def] z] obtain s' fl' where s':
      "split b z s = Some s'" "same_bounds s s'"
      "heap_rep s' (bs1 @ (asz, True) # (sz0 - asz - 16, False) # bs2) fl'" by blast
    have "place b z s = Some s'" unfolding place_def Let_def
      by (simp only: gs Option.bind.simps cond True if_True s'(1))
    moreover have "no_adj (bs1 @ (asz, True) # (sz0 - asz - 16, False) # bs2)"
      using nn by (simp add: no_adj_append no_adj_cons)
    moreover have "set (allocs (L + 8) (bs1 @ (asz, True) # (sz0 - asz - 16, False) # bs2)) =
             insert (L + 8 + span bs1 + 8) (set (allocs (L + 8) (bs1 @ (sz0, False) # bs2)))"
    proof -
      have e: "L + 8 + span bs1 + asz + 16 + (sz0 - asz - 16) + 16 = L + 8 + span bs1 + sz0 + 16"
        using True by simp
      have "allocs (L + 8) (bs1 @ (asz, True) # (sz0 - asz - 16, False) # bs2) =
          allocs (L + 8) bs1 @ [L + 8 + span bs1 + 8] @ allocs (L + 8 + span bs1 + sz0 + 16) bs2"
        unfolding allocs_append allocs.simps e by simp
      then show ?thesis unfolding old by simp
    qed
    ultimately show ?thesis using s'(2,3) ao(2)
      by (intro exI[of _ s'] exI[of _ asz] exI[of _ "(sz0 - asz - 16, False) # bs2"] exI[of _ fl']) simp
  next
    case False
    from place_keep[OF hr b[unfolded L_def] z0_def] obtain s' fl' where s':
      "(do { s1 \<leftarrow> write_value b (lsb_a z0 1) s;
             s2 \<leftarrow> write_value (b + z0 + 8) (lsb_a z0 1) s1;
             remove_node b s2 }) = Some s'" "same_bounds s s'"
      "heap_rep s' (bs1 @ (sz0, True) # bs2) fl'" by blast
    have "place b z s = Some s'" unfolding place_def Let_def
      by (simp only: gs Option.bind.simps cond False if_False s'(1))
    moreover have "no_adj (bs1 @ (sz0, True) # bs2)"
      using nn by (simp add: no_adj_append no_adj_cons)
    ultimately show ?thesis using s'(2,3) a(3) ao(2,3)
      by (intro exI[of _ s'] exI[of _ sz0] exI[of _ bs2] exI[of _ fl']) simp
  qed
qed

lemma free_nodes_split:
  "n \<in> set (free_nodes a bs) \<Longrightarrow> \<exists>bs1 sz bs2. bs = bs1 @ (sz, False) # bs2 \<and> n = a + span bs1 + 8"
proof (induction a bs rule: free_nodes.induct)
  case (1 a)
  then show ?case by simp
next
  case (2 a sz al bs)
  show ?case
  proof (cases "n \<in> set (free_nodes (a + sz + 16) bs)")
    case True
    from "2.IH"[OF True] obtain bs1 sz' bs2 where
      "bs = bs1 @ (sz', False) # bs2" "n = a + sz + 16 + span bs1 + 8" by blast
    then have "(sz, al) # bs = ((sz, al) # bs1) @ (sz', False) # bs2 \<and> n = a + span ((sz, al) # bs1) + 8"
      by simp
    then show ?thesis by blast
  next
    case False
    then have "\<not> al" "n = a + 8" using "2.prems" by (auto split: if_splits)
    then have "(sz, al) # bs = [] @ (sz, False) # bs \<and> n = a + span [] + 8" by simp
    then show ?thesis by blast
  qed
qed

lemma unat_align:
  "unat x + 15 < 18446744073709551616 \<Longrightarrow> unat (align x) = 16 * ((unat x + 15) div 16)"
proof -
  assume a: "unat x + 15 < 18446744073709551616"
  have 1: "unat (x + 16 - 1) = unat x + 15"
  proof -
    have e: "x + 16 - 1 = x + 15" by simp
    have "unat (x + 15) = unat x + 15" using a unat_add_nat[of x 15] by simp
    then show ?thesis unfolding e .
  qed
  have 2: "unat ((x + 16 - 1) div 16) = (unat x + 15) div 16" unfolding unat_div 1 by simp
  have "16 * ((unat x + 15) div 16) < 18446744073709551616" using a by simp
  then show ?thesis unfolding align_def using 2 by (simp add: unat_mult_lem[THEN iffD1])
qed

section \<open>Heap extension on a well-formed heap\<close>

lemma free_list_brk:
  "free_list s fl \<Longrightarrow> unat (brk s) \<le> unat B \<Longrightarrow> free_list (s\<lparr>brk := B\<rparr>) fl"
  unfolding free_list_def list_all_iff node_ok_def in_heap_def by auto

lemma heap_grow:
  fixes s :: heap
  defines "L \<equiv> unat (heap_lo s)"
  assumes hg: "heap_gen s bs fl N"
    and k: "32 \<le> k" "16 dvd k" "unat (brk s) + k \<le> unat (heap_max s)"
    and E: "E = of_nat (L + span bs + k + 8)" and F: "F = of_nat (L + span bs + k)"
    and H: "H = of_nat (L + 8 + span bs)"
    and v: "v = tag (k - 16) False"
    and s0: "s0 = s\<lparr>brk := brk s + of_nat k\<rparr>"
    and s1: "s1 = s0\<lparr>mem := put_word E 1 (mem s0)\<rparr>"
    and s2: "s2 = s1\<lparr>mem := put_word F v (mem s1)\<rparr>"
    and s3: "s3 = s2\<lparr>mem := put_word H v (mem s2)\<rparr>"
  shows "write_value E 1 s0 = Some s1" "write_value F v s1 = Some s2" "write_value H v s2 = Some s3"
    "heap_gen s3 (bs @ [(k - 16, False)]) fl N"
proof -
  let ?a = "L + 8"
  define eH where "eH = L + 8 + span bs"
  define eF where "eF = L + span bs + k"
  define eE where "eE = L + span bs + k + 8"
  note hb = heap_gen_bounds[OF hg, folded L_def]
  have br: "unat (brk s) = L + 16 + span bs" and L0: "0 < L" and Ld: "16 dvd L"
    and flst: "set fl \<subseteq> of_nat ` set (starts ?a bs)" and Nst: "N \<subseteq> set (starts ?a bs)"
    and flN: "set fl = of_nat ` N" and fl0: "free_list s fl" and ch0: "chain (mem s) ?a bs"
    and lo1: "word_at (mem s) (heap_lo s) = 1"
    using hg by (auto simp: heap_gen_def L_def)
  have lt: "L + 16 + span bs + k < 18446744073709551616"
    using k(3) unat_lt64[of "heap_max s"] unfolding br by linarith
  have lt': "?a + span bs < 18446744073709551616" using lt by simp
  have b0: "brk s0 = of_nat (L + 16 + span bs + k)"
  proof -
    have "brk s = of_nat (L + 16 + span bs)" using br[symmetric] by simp
    then show ?thesis unfolding s0 by simp
  qed
  have ub0: "unat (brk s0) = L + 16 + span bs + k" unfolding b0 using lt by (rule unat_of_nat64)
  have bnd: "heap_lo s0 = heap_lo s" "heap_lo s1 = heap_lo s" "heap_lo s2 = heap_lo s"
    "heap_lo s3 = heap_lo s" "brk s1 = brk s0" "brk s2 = brk s0" "brk s3 = brk s0"
    "heap_max s3 = heap_max s" "first s3 = first s"
    unfolding s3 s2 s1 s0 by simp_all
  have d8: "8 dvd L" "8 dvd eH" "8 dvd eF" "8 dvd eE"
    using Ld wfb_span_dvd[OF hb(2)] k(2) unfolding eH_def eF_def eE_def by presburger+
  have al: "al8 (of_nat eH :: 64 word)" "al8 (of_nat eF :: 64 word)" "al8 (of_nat eE :: 64 word)"
    using d8 by (simp_all add: al8_of_nat)
  have b64: "L < 18446744073709551616" "eH < 18446744073709551616" "eF < 18446744073709551616"
    "eE < 18446744073709551616"
    using lt unfolding eH_def eF_def eE_def by simp_all
  show st1: "write_value E 1 s0 = Some s1"
    unfolding write_value_def s1 E using ub0 bnd by (intro store64_nat) (simp_all add: L_def)
  show st2: "write_value F v s1 = Some s2"
    unfolding write_value_def s2 F using ub0 bnd k by (intro store64_nat) (simp_all add: L_def)
  show st3: "write_value H v s2 = Some s3"
    unfolding write_value_def s3 H using ub0 bnd by (intro store64_nat) (simp_all add: L_def)
  have m3: "mem s3 = put_word (of_nat eH) v (put_word (of_nat eF) v (put_word (of_nat eE) 1 (mem s)))"
    unfolding s3 s2 s1 s0 H F E eH_def eF_def eE_def by simp
  have ord: "L < eH" "eH < eF" "eF < eE" unfolding eH_def eF_def eE_def using k(1) by simp_all
  have old: "word_at (mem s3) (of_nat t) = word_at (mem s) (of_nat t)" if "8 dvd t" "t < eH" for t
  proof -
    have "t < 18446744073709551616" using that(2) b64 by linarith
    then show ?thesis unfolding m3 using that d8 b64 ord by (simp add: rd_wr)
  qed
  have c6: "word_at (mem s3) (heap_lo s3) = 1"
    unfolding bnd hb(4) using old[OF d8(1) ord(1)] lo1[unfolded hb(4)] by simp
  have "brk s3 - 8 = of_nat eE" unfolding bnd b0 eE_def by simp
  then have c7: "word_at (mem s3) (brk s3 - 8) = 1"
    unfolding m3 using d8 b64 ord by (simp add: rd_wr)
  have wH: "word_at (mem s3) (of_nat eH) = v" "word_at (mem s3) (of_nat eF) = v"
    unfolding m3 using d8 b64 ord by (simp_all add: rd_wr)
  have "\<forall>t\<in>tags ?a bs. word_at (mem s3) (of_nat t) = word_at (mem s) (of_nat t)"
  proof
    fix t assume t: "t \<in> tags ?a bs"
    have "8 dvd ?a" using d8(1) by presburger
    then have "8 dvd t" using tags_dvd[OF hb(2) _ t] by simp
    moreover have "t < eH" using tags_range[OF t] unfolding eH_def by simp
    ultimately show "word_at (mem s3) (of_nat t) = word_at (mem s) (of_nat t)" by (rule old)
  qed
  then have ch1: "chain (mem s3) ?a bs" using ch0 chain_cong by blast
  have eF': "eH + (k - 16) + 8 = eF" unfolding eH_def eF_def using k(1) by simp
  have ch2: "chain (mem s3) eH [(k - 16, False)]"
  proof -
    have "16 \<le> k - 16" using k(1) by simp
    moreover have "16 dvd k - 16" using k(1,2) by presburger
    ultimately show ?thesis using wH unfolding v eF'[symmetric] by simp
  qed
  have c8: "chain (mem s3) (unat (heap_lo s3) + 8) (bs @ [(k - 16, False)])"
    unfolding bnd chain_append using ch1 ch2 by (simp add: L_def eH_def)
  have nf: "of_nat t \<notin> lfields fl" if "eH \<le> t" "t < 18446744073709551616" for t
  proof
    assume "of_nat t \<in> lfields fl"
    then obtain n where n: "n \<in> set (starts ?a bs)"
      "(of_nat t :: 64 word) = of_nat n \<or> (of_nat t :: 64 word) = of_nat n + 8"
      using flst by (auto simp: lfields_def)
    have "t < ?a + 8 \<or> ?a + span bs - 8 \<le> t" using that(1) unfolding eH_def by simp
    from outside_not_field[OF hb(2) lt' this that(2) n(1)] n(2) show False by blast
  qed
  have f0: "free_list s0 fl" unfolding s0 using ub0 br b0
    by (intro free_list_brk[OF fl0]) (simp add: s0)
  have f1: "free_list s1 fl" unfolding s1 E eE_def[symmetric]
    using b64 by (intro free_list_store[OF f0 al(3) nf]) (simp_all add: eE_def eH_def)
  have f2: "free_list s2 fl" unfolding s2 F eF_def[symmetric]
    using b64 k by (intro free_list_store[OF f1 al(2) nf]) (simp_all add: eF_def eH_def)
  have c9: "free_list s3 fl" unfolding s3 H eH_def[symmetric]
    using b64 by (intro free_list_store[OF f2 al(1) nf]) simp_all
  have c4: "unat (brk s3) = unat (heap_lo s3) + 16 + span (bs @ [(k - 16, False)])"
    unfolding bnd ub0 using k(1) by (simp add: L_def)
  have c5: "unat (brk s3) \<le> unat (heap_max s3)" unfolding bnd ub0 using k(3) br by simp
  have c11: "N \<subseteq> set (starts (unat (heap_lo s3) + 8) (bs @ [(k - 16, False)]))"
    unfolding bnd using Nst by (auto simp: starts_append L_def)
  show "heap_gen s3 (bs @ [(k - 16, False)]) fl N"
    unfolding heap_gen_def using L0 Ld c4 c5 c6 c7 c8 c9 flN c11 by (simp add: bnd L_def)
qed

lemma not_al16_minus1: "\<not> al16 (- 1)"
proof -
  have e: "(- 1 :: 64 word) = 18446744073709551615" by simp
  have "unat (18446744073709551615 :: 64 word) = 18446744073709551615" by simp
  then have "unat (- 1 :: 64 word) = 18446744073709551615" by (simp only: e)
  then show ?thesis unfolding al16_def by (simp only:) simp
qed

lemma expand_heap_heap:
  assumes hr: "heap_rep s bs fl" and na: "no_adj bs"
    and k: "k = unat (align ext)" "32 \<le> k"
    and fit: "unat (brk s) + k \<le> unat (heap_max s)"
  shows "\<exists>bp s' xs m fl'. expand_heap ext s = Some (bp, s') \<and>
           heap_rep s' (xs @ [(m, False)]) fl' \<and> no_adj (xs @ [(m, False)]) \<and>
           bp = of_nat (unat (heap_lo s') + 8 + span xs) \<and> k - 16 \<le> m \<and>
           heap_lo s' = heap_lo s \<and>
           allocs (unat (heap_lo s) + 8) (xs @ [(m, False)]) = allocs (unat (heap_lo s) + 8) bs"
proof -
  define L where "L = unat (heap_lo s)"
  define N where "N = set (free_nodes (L + 8) bs)"
  have hg: "heap_gen s bs fl N" using hr unfolding heap_rep_gen N_def L_def .
  note hb = heap_gen_bounds[OF hg, folded L_def]
  have bne: "bs \<noteq> []" and br: "unat (brk s) = L + 16 + span bs"
    using hg by (simp_all add: heap_gen_def L_def)
  define bytes where "bytes = align ext"
  have bk: "bytes = of_nat k" unfolding bytes_def k by simp
  have kd: "16 dvd k" using al16_align[of ext] unfolding k al16_def by presburger
  define s0 where "s0 = s\<lparr>brk := brk s + of_nat k\<rparr>"
  define E :: addr where "E = of_nat (L + span bs + k + 8)"
  define F :: addr where "F = of_nat (L + span bs + k)"
  define H :: addr where "H = of_nat (L + 8 + span bs)"
  define v where "v = tag (k - 16) False"
  define s1 where "s1 = s0\<lparr>mem := put_word E 1 (mem s0)\<rparr>"
  define s2 where "s2 = s1\<lparr>mem := put_word F v (mem s1)\<rparr>"
  define s3 where "s3 = s2\<lparr>mem := put_word H v (mem s2)\<rparr>"
  note gr = heap_grow[OF hg k(2) kd fit E_def[unfolded L_def] F_def[unfolded L_def]
      H_def[unfolded L_def] v_def s0_def s1_def s2_def s3_def]
  have l3: "unat (heap_lo s3) = L" unfolding s3_def s2_def s1_def s0_def L_def by simp
  have h3: "heap_lo s3 = heap_lo s" unfolding s3_def s2_def s1_def s0_def by simp
  have ms: "mem_sbrk bytes s = (brk s, s0)"
    unfolding mem_sbrk_def s0_def bk[symmetric] using fit unfolding k bytes_def by simp
  have nb: "(brk s = - 1) = False" using heap_rep_brk_al16[OF hr] not_al16_minus1 by auto
  have bw: "brk s = of_nat (L + 16 + span bs)" using br[symmetric] by simp
  have qE: "brk s + bytes - 8 = E" unfolding bw bk E_def by simp
  have qF: "brk s + bytes - 16 = F" unfolding bw bk F_def by simp
  have qH: "brk s - 8 = H" unfolding bw H_def by simp
  have l1: "lsb_a 0 1 = (1 :: 64 word)" by (simp add: lsb_a_def)
  have "bytes - 16 = of_nat (k - 16)" unfolding bk using k(2) by (simp add: of_nat_diff)
  then have l2: "lsb_a (bytes - 16) 0 = v" unfolding v_def tag_def by simp
  from prev_side[OF gr(4), unfolded l3, folded H_def] bne obtain pf where pf:
    "get_size s3 (H - 8) = Some pf"
    "H - pf - 16 = (of_nat (L + 8 + span (butlast bs)) :: 64 word)"
    "get_allocated s3 (H - pf - 16) = Some (snd (last bs))"
    by blast
  have pre: "expand_heap ext s =
      (if \<not> snd (last bs) then do { s4 \<leftarrow> coalesce H s3; Some (H - pf - 16, s4) }
       else do { s4 \<leftarrow> add_node H s3; Some (H, s4) })"
    unfolding expand_heap_def Let_def bytes_def[symmetric] prev_blk_def
    by (simp only: ms prod.case nb simp_thms if_True qE qF qH l1 l2 gr(1,2,3) pf(1,3) Option.bind.simps)
  have r1: "\<forall>n\<in>set (free_nodes (L + 8) bs). n + 24 \<le> L + 8 + span bs"
    using nodes_range[OF hb(2)] by blast
  show ?thesis
  proof (cases "snd (last bs)")
    case True
    have stn: "L + 8 + span bs + 8 \<in> set (starts (unat (heap_lo s3) + 8) (bs @ [(k - 16, False)]))"
      unfolding l3 by (simp add: starts_append)
    have nN: "L + 8 + span bs + 8 \<notin> N" unfolding N_def using r1 by fastforce
    from heap_gen_add[OF gr(4) stn nN] obtain s' where s':
      "add_node (of_nat (L + 8 + span bs + 8 - 8)) s3 = Some s'" "same_bounds s3 s'"
      "heap_gen s' (bs @ [(k - 16, False)]) (of_nat (L + 8 + span bs + 8) # fl)
         (insert (L + 8 + span bs + 8) N)"
      by blast
    have e: "(of_nat (L + 8 + span bs + 8 - 8) :: addr) = H" unfolding H_def by simp
    have an: "add_node H s3 = Some s'" using s'(1) unfolding e .
    have l': "unat (heap_lo s') = L" using s'(2) l3 by (simp add: same_bounds_def)
    have ins: "insert (L + 8 + span bs + 8) N = set (free_nodes (L + 8) (bs @ [(k - 16, False)]))"
      unfolding N_def by (simp add: free_nodes_append)
    have rep: "heap_rep s' (bs @ [(k - 16, False)]) (of_nat (L + 8 + span bs + 8) # fl)"
      unfolding heap_rep_gen l' ins[symmetric] by (rule s'(3))
    have "expand_heap ext s = Some (H, s')" unfolding pre
      by (simp only: True simp_thms if_False an Option.bind.simps)
    moreover have "no_adj (bs @ [(k - 16, False)])" using na True by (simp add: no_adj_append)
    moreover have "H = of_nat (unat (heap_lo s') + 8 + span bs)" unfolding l' H_def ..
    moreover have "heap_lo s' = heap_lo s" using s'(2) h3 by (simp add: same_bounds_def)
    moreover have "allocs (unat (heap_lo s) + 8) (bs @ [(k - 16, False)]) = allocs (unat (heap_lo s) + 8) bs"
      by (simp add: allocs_append)
    ultimately show ?thesis using rep
      by (intro exI[of _ H] exI[of _ s'] exI[of _ bs] exI[of _ "k - 16"]
          exI[of _ "of_nat (L + 8 + span bs + 8) # fl"]) simp
  next
    case False
    then obtain xs szp where bs: "bs = xs @ [(szp, False)]"
      using bne by (cases bs rule: rev_cases) auto
    have hg3: "heap_gen s3 (xs @ (szp, False) # (k - 16, False) # []) fl N"
      using gr(4) unfolding bs by simp
    have w: "wfb xs" using hb(2) unfolding bs by simp
    have N': "N = set (free_nodes (unat (heap_lo s3) + 8) (xs @ (szp, False) # (k - 16, False) # [])) -
                {unat (heap_lo s3) + 8 + span xs + szp + 16 + 8}"
    proof -
      have "\<forall>n\<in>set (free_nodes (L + 8) (xs @ [(szp, False)])). n + 24 \<le> L + 8 + span xs + szp + 16"
        using r1 unfolding bs by (simp add: add.assoc)
      then show ?thesis unfolding l3 N_def bs free_nodes_append by (fastforce simp: add.assoc)
    qed
    from coalesce_FT[OF hg3 N'] obtain s' fl' where s':
      "coalesce (of_nat (unat (heap_lo s3) + 8 + span xs + szp + 16)) s3 = Some s'"
      "same_bounds s3 s'" "heap_rep s' (xs @ (szp + (k - 16) + 16, False) # []) fl'"
      by blast
    have e: "(of_nat (unat (heap_lo s3) + 8 + span xs + szp + 16) :: addr) = H"
      unfolding l3 H_def bs by (simp add: add.assoc)
    have co: "coalesce H s3 = Some s'" using s'(1) unfolding e .
    have l': "unat (heap_lo s') = L" using s'(2) l3 by (simp add: same_bounds_def)
    have pb: "H - pf - 16 = of_nat (L + 8 + span xs)" unfolding pf(2) bs by simp
    have "expand_heap ext s = Some (H - pf - 16, s')" unfolding pre
      by (simp only: False simp_thms if_True co Option.bind.simps)
    moreover have "no_adj (xs @ [(szp + (k - 16) + 16, False)])"
      using na unfolding bs by (simp add: no_adj_append)
    moreover have "H - pf - 16 = of_nat (unat (heap_lo s') + 8 + span xs)" unfolding l' pb ..
    moreover have "heap_lo s' = heap_lo s" using s'(2) h3 by (simp add: same_bounds_def)
    moreover have "allocs (unat (heap_lo s) + 8) (xs @ [(szp + (k - 16) + 16, False)]) =
        allocs (unat (heap_lo s) + 8) bs"
      unfolding bs by (simp add: allocs_append)
    ultimately show ?thesis using s'(3)
      by (intro exI[of _ "H - pf - 16"] exI[of _ s'] exI[of _ xs] exI[of _ "szp + (k - 16) + 16"]
          exI[of _ fl']) simp
  qed
qed

section \<open>Requests and their rounding\<close>

lemma payload_neq0:
  assumes "heap_rep s (bs1 @ (m, al) # bs2) fl"
  shows "(of_nat (unat (heap_lo s) + 8 + span bs1) :: addr) \<noteq> 0"
    "(of_nat (unat (heap_lo s) + 8 + span bs1 + 8) :: addr) \<noteq> 0"
proof -
  note hb = heap_gen_bounds[OF assms[unfolded heap_rep_gen]]
  have lt: "unat (heap_lo s) + 8 + span bs1 + 8 < 18446744073709551616" using hb(1) by simp
  then have lt': "unat (heap_lo s) + 8 + span bs1 < 18446744073709551616" by simp
  show "(of_nat (unat (heap_lo s) + 8 + span bs1) :: addr) \<noteq> 0"
    using of_nat_inj64[OF lt', of 0] by simp
  show "(of_nat (unat (heap_lo s) + 8 + span bs1 + 8) :: addr) \<noteq> 0"
    using of_nat_inj64[OF lt, of 0] by simp
qed

lemma round16:
  fixes x :: nat
  shows "x \<le> 16 * ((x + 15) div 16)" "16 dvd M \<Longrightarrow> x \<le> M \<Longrightarrow> 16 * ((x + 15) div 16) \<le> M"
    "0 < x \<Longrightarrow> 16 \<le> 16 * ((x + 15) div 16)"
proof -
  have e: "16 * ((x + 15) div 16) + (x + 15) mod 16 = x + 15" by (rule mult_div_mod_eq)
  have "(x + 15) mod 16 < 16" by simp
  with e show "x \<le> 16 * ((x + 15) div 16)" by linarith
  show "16 * ((x + 15) div 16) \<le> M" if "16 dvd M" "x \<le> M"
  proof -
    from that(1) obtain q where q: "M = 16 * q" by (rule dvdE)
    have "x + 15 < Suc q * 16" using that(2) unfolding q by simp
    then have "(x + 15) div 16 < Suc q" by (rule less_mult_imp_div_less)
    then show ?thesis unfolding q by simp
  qed
  show "16 \<le> 16 * ((x + 15) div 16)" if "0 < x"
  proof -
    have "16 div 16 \<le> (x + 15) div (16 :: nat)" using that by (intro div_le_mono) simp
    then show ?thesis by simp
  qed
qed

lemma align_request:
  assumes "n \<noteq> 0" "unat n + 32 \<le> 18446744073709551616"
  shows "16 \<le> unat (align n)" "16 dvd unat (align n)" "unat n \<le> unat (align n)"
    "unat (align n) + 32 \<le> 18446744073709551616"
proof -
  have u: "unat (align n) = 16 * ((unat n + 15) div 16)" using assms(2) by (intro unat_align) simp
  have "0 < unat n" using assms(1) by (simp add: unat_gt_0)
  then show "16 \<le> unat (align n)" unfolding u by (rule round16(3))
  show "16 dvd unat (align n)" unfolding u by simp
  show "unat n \<le> unat (align n)" unfolding u by (rule round16(1))
  have "(16 :: nat) dvd 18446744073709551584" by simp
  moreover have "unat n \<le> 18446744073709551584" using assms(2) by simp
  ultimately have "16 * ((unat n + 15) div 16) \<le> 18446744073709551584" by (rule round16(2))
  then show "unat (align n) + 32 \<le> 18446744073709551616" unfolding u by simp
qed

lemma extend_size:
  assumes "16 \<le> unat z" "unat z + 32 \<le> 18446744073709551616"
  shows "unat z + 16 \<le> unat (align (if z + 16 > 4096 then z + 16 else 4096))"
proof -
  have u: "unat (z + 16) = unat z + 16" using assms(2) unat_add_nat[of z 16] by simp
  define e where "e = (if z + 16 > 4096 then z + 16 else 4096)"
  have ue: "unat e = (if unat z + 16 > 4096 then unat z + 16 else 4096)"
    unfolding e_def using u by (simp add: word_less_nat_alt)
  then have "unat e + 15 < 18446744073709551616" using assms(2) by (simp split: if_splits)
  then have "unat (align e) = 16 * ((unat e + 15) div 16)" by (rule unat_align)
  moreover have "unat z + 16 \<le> unat e" using ue by (simp split: if_splits)
  ultimately show ?thesis unfolding e_def[symmetric] using round16(1)[of "unat e"] by linarith
qed

lemma find_SomeD: "find P xs = Some x \<Longrightarrow> P x \<and> x \<in> set xs"
  by (induction xs) (auto split: if_splits)

section \<open>Allocation on a well-formed heap\<close>

lemma fits_block:
  assumes hr: "heap_rep s (bs1 @ (sz0, False) # bs2) fl"
  shows "fits s z (of_nat (unat (heap_lo s) + 8 + span bs1 + 8)) = (unat z \<le> sz0)"
proof -
  define L where "L = unat (heap_lo s)"
  define b :: addr where "b = of_nat (L + 8 + span bs1)"
  have hg: "heap_gen s (bs1 @ (sz0, False) # bs2) fl (set (free_nodes (L + 8) (bs1 @ (sz0, False) # bs2)))"
    using hr unfolding heap_rep_gen L_def .
  note hb = heap_gen_bounds[OF hg, folded L_def]
  have lt: "sz0 < 18446744073709551616" using hb(1) by simp
  have xb: "(of_nat (L + 8 + span bs1 + 8) :: addr) - 8 = b" unfolding b_def by simp
  have "get_size s b = Some (of_nat sz0)"
    using read_block(1)[OF hg, folded L_def] unfolding b_def .
  then have "word_at (mem s) b AND NOT 1 = of_nat sz0"
    by (auto simp: get_size_def load64_def split: if_splits)
  then have "fits s z (of_nat (L + 8 + span bs1 + 8)) = (z \<le> of_nat sz0)"
    unfolding fits_def xb by simp
  then show ?thesis unfolding L_def word_le_nat_alt using unat_of_nat64[OF lt] by simp
qed

lemma no_fit_iff:
  assumes hr: "heap_rep s bs fl"
  shows "(find (fits s z) fl = None) = (\<forall>b\<in>set bs. snd b \<or> fst b < unat z)"
proof -
  define L where "L = unat (heap_lo s)"
  have flN: "set fl = of_nat ` set (free_nodes (L + 8) bs)"
    using hr by (simp add: heap_rep_def L_def)
  have 1: "\<not> fits s z x" if all: "\<forall>b\<in>set bs. snd b \<or> fst b < unat z" and x: "x \<in> set fl" for x
  proof -
    from x obtain nx where nx: "x = of_nat nx" "nx \<in> set (free_nodes (L + 8) bs)"
      unfolding flN by blast
    from free_nodes_split[OF nx(2)] obtain bs1 sz0 bs2 where
      bs: "bs = bs1 @ (sz0, False) # bs2" and nxe: "nx = L + 8 + span bs1 + 8" by blast
    have "sz0 < unat z" using all unfolding bs by simp
    then show ?thesis using fits_block[OF hr[unfolded bs], of z] unfolding nx(1) nxe L_def by simp
  qed
  have 2: "snd b \<or> fst b < unat z" if nf: "\<forall>x\<in>set fl. \<not> fits s z x" and b: "b \<in> set bs" for b
  proof (cases "snd b")
    case True
    then show ?thesis by simp
  next
    case False
    from b obtain bs1 bs2 where "bs = bs1 @ b # bs2" by (meson split_list)
    then have bs: "bs = bs1 @ (fst b, False) # bs2" using False by (cases b) simp
    have "L + 8 + span bs1 + 8 \<in> set (free_nodes (L + 8) bs)"
      unfolding bs by (simp add: free_nodes_append)
    then have "of_nat (L + 8 + span bs1 + 8) \<in> set fl" unfolding flN by (rule imageI)
    then have "\<not> fits s z (of_nat (L + 8 + span bs1 + 8))" using nf by blast
    then show ?thesis using fits_block[OF hr[unfolded bs], of z] unfolding L_def by simp
  qed
  show ?thesis unfolding find_None_iff using 1 2 by blast
qed

lemma malloc_heap:
  assumes hr: "heap_rep s bs fl" and na: "no_adj bs"
    and n: "unat n + 32 \<le> 18446744073709551616"
  shows "\<exists>p s'. malloc n s = Some (p, s') \<and>
      (n = 0 \<longrightarrow> p = 0) \<and>
      (n \<noteq> 0 \<longrightarrow> (p = 0) = ((\<forall>b\<in>set bs. snd b \<or> fst b < unat (align n)) \<and>
           fst (mem_sbrk (align (if align n + 16 > 4096 then align n + 16 else 4096)) s) = - 1)) \<and>
      (p = 0 \<longrightarrow> s' = s) \<and>
      (p \<noteq> 0 \<longrightarrow> (\<exists>bs1 m bs2 fl'. heap_rep s' (bs1 @ (m, True) # bs2) fl' \<and>
           no_adj (bs1 @ (m, True) # bs2) \<and>
           p = of_nat (unat (heap_lo s) + 8 + span bs1 + 8) \<and> unat n \<le> m \<and>
           heap_lo s' = heap_lo s \<and>
           set (allocs (unat (heap_lo s) + 8) (bs1 @ (m, True) # bs2)) =
             insert (unat (heap_lo s) + 8 + span bs1 + 8) (set (allocs (unat (heap_lo s) + 8) bs)) \<and>
           unat (heap_lo s) + 8 + span bs1 + 8 \<notin> set (allocs (unat (heap_lo s) + 8) bs)))"
proof (cases "n = 0")
  case True
  have "malloc n s = Some (0, s)" unfolding malloc_def using True by simp
  then show ?thesis using True by (intro exI[of _ 0] exI[of _ s]) simp
next
  case n1: False
  define L where "L = unat (heap_lo s)"
  define z where "z = align n"
  define asz where "asz = unat z"
  define ext where "ext = (if z + 16 > 4096 then z + 16 else 4096)"
  define k where "k = unat (align ext)"
  note ar = align_request[OF n1 n, folded z_def, folded asz_def]
  have zw: "z = of_nat asz" unfolding asz_def by simp
  have kk: "asz + 16 \<le> k" unfolding k_def ext_def asz_def
    using ar(1,4) unfolding asz_def by (rule extend_size)
  have hg: "heap_gen s bs fl (set (free_nodes (L + 8) bs))" using hr unfolding heap_rep_gen L_def .
  note hb = heap_gen_bounds[OF hg, folded L_def]
  have flN: "set fl = of_nat ` set (free_nodes (L + 8) bs)" using hg by (simp add: heap_gen_def)
  have n0: "(n = 0) = False" using n1 by simp
  note ff = heap_rep_first_fit[OF hr, of z]
  show ?thesis
  proof (cases "find (fits s z) fl")
    case (Some x)
    from find_SomeD[OF Some] have x: "fits s z x" "x \<in> set fl" by simp_all
    from x(2) obtain nx where nx: "x = of_nat nx" "nx \<in> set (free_nodes (L + 8) bs)"
      unfolding flN by blast
    from free_nodes_split[OF nx(2)] obtain bs1 sz0 bs2 where
      bs: "bs = bs1 @ (sz0, False) # bs2" and nxe: "nx = L + 8 + span bs1 + 8" by blast
    define b :: addr where "b = of_nat (L + 8 + span bs1)"
    have xb: "x - 8 = b" unfolding nx(1) nxe b_def by simp
    have fb: "first_fit z s = Some b" unfolding ff Some xb[symmetric] by simp
    have b0: "(b = 0) = False" using payload_neq0(1)[OF hr[unfolded bs]] unfolding b_def L_def by simp
    have le: "asz \<le> sz0"
      using x(1) fits_block[OF hr[unfolded bs], of z] unfolding nx(1) nxe L_def asz_def by simp
    from place_heap[OF hr[unfolded bs] na[unfolded bs] ar(1,2) le b_def[unfolded L_def] zw, folded L_def]
    obtain s' m ys fl' where s': "place b z s = Some s'" "same_bounds s s'"
      "heap_rep s' (bs1 @ (m, True) # ys) fl'" "no_adj (bs1 @ (m, True) # ys)" "asz \<le> m"
      "set (allocs (L + 8) (bs1 @ (m, True) # ys)) =
         insert (L + 8 + span bs1 + 8) (set (allocs (L + 8) (bs1 @ (sz0, False) # bs2)))"
      "L + 8 + span bs1 + 8 \<notin> set (allocs (L + 8) (bs1 @ (sz0, False) # bs2))"
      by blast
    have hl: "heap_lo s' = heap_lo s" using s'(2) by (simp add: same_bounds_def)
    have m: "malloc n s = Some (b + 8, s')"
      unfolding malloc_def Let_def z_def[symmetric]
      by (simp only: n0 if_False fb Option.bind.simps b0 simp_thms if_True s'(1))
    have pe: "b + 8 = of_nat (L + 8 + span bs1 + 8)" unfolding b_def by simp
    have p0: "b + 8 \<noteq> 0" unfolding pe L_def hl[symmetric] by (rule payload_neq0(2)[OF s'(3)])
    have "(sz0, False) \<in> set bs" unfolding bs by simp
    then have nf: "\<not> (\<forall>b\<in>set bs. snd b \<or> fst b < unat (align n))"
      using le unfolding asz_def z_def by force
    have "\<exists>bs1 m bs2 fl'. heap_rep s' (bs1 @ (m, True) # bs2) fl' \<and>
           no_adj (bs1 @ (m, True) # bs2) \<and>
           b + 8 = of_nat (L + 8 + span bs1 + 8) \<and> unat n \<le> m \<and> heap_lo s' = heap_lo s \<and>
           set (allocs (L + 8) (bs1 @ (m, True) # bs2)) =
             insert (L + 8 + span bs1 + 8) (set (allocs (L + 8) bs)) \<and>
           L + 8 + span bs1 + 8 \<notin> set (allocs (L + 8) bs)"
      using s'(3,4,5) pe ar(3) hl s'(6,7)[folded bs]
      by (intro exI[of _ bs1] exI[of _ m] exI[of _ ys] exI[of _ fl']) simp
    then show ?thesis using m p0 nf n1 unfolding L_def by (intro exI[of _ "b + 8"] exI[of _ s']) simp
  next
    case None
    have f0: "first_fit z s = Some 0" unfolding ff None by simp
    have nofit: "\<forall>b\<in>set bs. snd b \<or> fst b < unat (align n)"
      using no_fit_iff[OF hr, of z] None unfolding z_def by simp
    show ?thesis
    proof (cases "unat (brk s) + k \<le> unat (heap_max s)")
      case True
      have k32: "32 \<le> k" using kk ar(1) by linarith
      from expand_heap_heap[OF hr na k_def k32 True, folded L_def]
      obtain bp s1 xs m1 fl1 where e: "expand_heap ext s = Some (bp, s1)"
        "heap_rep s1 (xs @ [(m1, False)]) fl1" "no_adj (xs @ [(m1, False)])"
        "bp = of_nat (unat (heap_lo s1) + 8 + span xs)" "k - 16 \<le> m1"
        "heap_lo s1 = heap_lo s" "allocs (L + 8) (xs @ [(m1, False)]) = allocs (L + 8) bs"
        by blast
      have le: "asz \<le> m1" using kk e(5) by simp
      from place_heap[OF e(2,3) ar(1,2) le e(4) zw, unfolded e(6), folded L_def]
      obtain s' m ys fl' where s': "place bp z s1 = Some s'" "same_bounds s1 s'"
        "heap_rep s' (xs @ (m, True) # ys) fl'" "no_adj (xs @ (m, True) # ys)" "asz \<le> m"
        "set (allocs (L + 8) (xs @ (m, True) # ys)) =
           insert (L + 8 + span xs + 8) (set (allocs (L + 8) (xs @ [(m1, False)])))"
        "L + 8 + span xs + 8 \<notin> set (allocs (L + 8) (xs @ [(m1, False)]))"
        by blast
      have hl: "heap_lo s' = heap_lo s" using s'(2) e(6) by (simp add: same_bounds_def)
      have b0: "(bp = 0) = False" using payload_neq0(1)[OF e(2)] unfolding e(4) by simp
      have m: "malloc n s = Some (bp + 8, s')"
        unfolding malloc_def Let_def z_def[symmetric] ext_def[symmetric]
        by (simp only: n0 if_False f0 Option.bind.simps simp_thms e(1) prod.case b0 s'(1))
      have pe: "bp + 8 = of_nat (L + 8 + span xs + 8)" unfolding e(4) e(6) L_def by simp
      have p0: "bp + 8 \<noteq> 0" unfolding pe L_def hl[symmetric] by (rule payload_neq0(2)[OF s'(3)])
      have "fst (mem_sbrk (align ext) s) \<noteq> - 1"
        unfolding mem_sbrk_def using True heap_rep_brk_al16[OF hr] not_al16_minus1
        by (auto simp: k_def)
      then have nf: "\<not> ((\<forall>b\<in>set bs. snd b \<or> fst b < unat (align n)) \<and>
           fst (mem_sbrk (align (if align n + 16 > 4096 then align n + 16 else 4096)) s) = - 1)"
        unfolding ext_def z_def by simp
      have "\<exists>bs1 m bs2 fl'. heap_rep s' (bs1 @ (m, True) # bs2) fl' \<and>
           no_adj (bs1 @ (m, True) # bs2) \<and>
           bp + 8 = of_nat (L + 8 + span bs1 + 8) \<and> unat n \<le> m \<and> heap_lo s' = heap_lo s \<and>
           set (allocs (L + 8) (bs1 @ (m, True) # bs2)) =
             insert (L + 8 + span bs1 + 8) (set (allocs (L + 8) bs)) \<and>
           L + 8 + span bs1 + 8 \<notin> set (allocs (L + 8) bs)"
        using s'(3,4,5) pe ar(3) hl s'(6,7)[unfolded e(7)]
        by (intro exI[of _ xs] exI[of _ m] exI[of _ ys] exI[of _ fl']) simp
      then show ?thesis using m p0 nf n1 unfolding L_def by (intro exI[of _ "bp + 8"] exI[of _ s']) simp
    next
      case False
      have ms: "mem_sbrk (align ext) s = (- 1, s)"
        unfolding mem_sbrk_def using False by (simp add: k_def)
      have e: "expand_heap ext s = Some (0, s)"
        unfolding expand_heap_def Let_def by (simp only: ms prod.case simp_thms if_False)
      have m: "malloc n s = Some (0, s)"
        unfolding malloc_def Let_def z_def[symmetric] ext_def[symmetric]
        by (simp only: n0 if_False f0 Option.bind.simps simp_thms e prod.case if_True)
      have "(\<forall>b\<in>set bs. snd b \<or> fst b < unat (align n)) \<and>
           fst (mem_sbrk (align (if align n + 16 > 4096 then align n + 16 else 4096)) s) = - 1"
        using nofit ms unfolding ext_def z_def by simp
      then show ?thesis using m by (intro exI[of _ 0] exI[of _ s]) simp
    qed
  qed
qed

lemma malloc_aligned_step:
  assumes "heap_rep s bs fl" and "malloc n s = Some (p, s')" and "p \<noteq> 0"
  shows "unat p mod 16 = 0"
proof -
  have ff: "first_fit (align n) s = Some (case find (fits s (align n)) fl of None \<Rightarrow> 0 | Some x \<Rightarrow> x - 8)"
    by (rule heap_rep_first_fit[OF assms(1)])
  have nodes: "\<And>x. x \<in> set fl \<Longrightarrow> al16 x"
    using assms(1) by (auto simp: heap_rep_def free_list_def list_all_iff node_ok_def)
  show ?thesis
  proof (cases "find (fits s (align n)) fl")
    case None
    with ff assms(2,3) obtain bp s1 where "expand_heap (if align n + 16 > 4096 then align n + 16 else 4096) s = Some (bp, s1)"
      "bp \<noteq> 0" "p = bp + 8"
      by (auto simp: malloc_def Let_def split: if_splits bind_splits)
    with expand_heap_aligned[OF assms(1)] show ?thesis by (auto simp: al16_def)
  next
    case (Some x)
    then have x: "x \<in> set fl" by (auto simp: find_Some_iff)
    have "x - 8 \<noteq> 0" using heap_rep_free_hdr[OF assms(1) x] by (simp add: free_hdr_def)
    with Some ff assms(2,3) have "p = x - 8 + 8"
      by (auto simp: malloc_def Let_def split: if_splits bind_splits)
    moreover note x
    ultimately show ?thesis using nodes[of x] by (simp add: al16_def)
  qed
qed

section \<open>The heap after \<open>mm_init\<close>\<close>

lemma mm_init_rep:
  assumes lo: "0 < unat (heap_lo s0)" "16 dvd unat (heap_lo s0)" and br: "brk s0 = heap_lo s0"
    and mi: "mm_init s0 = Some (True, s)"
  shows "heap_rep s [(4064, False)] [heap_lo s0 + 16]" "heap_lo s = heap_lo s0"
proof -
  define L where "L = unat (heap_lo s0)"
  have fit: "unat (brk s0) + 4096 \<le> unat (heap_max s0)"
  proof (rule ccontr)
    assume "\<not> unat (brk s0) + 4096 \<le> unat (heap_max s0)"
    then have "mm_init s0 = Some (False, s0)" unfolding mm_init_def mem_sbrk_def by simp
    with mi show False by simp
  qed
  have lt: "L + 4096 < 18446744073709551616"
    using fit unat_lt64[of "heap_max s0"] unfolding br L_def by linarith
  define a0 where "a0 = L"
  define a1 where "a1 = L + 8"
  define a2 where "a2 = L + 4080"
  define a3 where "a3 = L + 4088"
  define a4 where "a4 = L + 16"
  define a5 where "a5 = L + 24"
  define B :: addr where "B = heap_lo s0"
  have Bw: "B = of_nat L" unfolding B_def L_def by simp
  define t0 where "t0 = s0\<lparr>brk := B + 4096\<rparr>"
  define t1 where "t1 = t0\<lparr>mem := put_word (of_nat a0) 1 (mem t0)\<rparr>"
  define t2 where "t2 = t1\<lparr>mem := put_word (of_nat a1) 4064 (mem t1)\<rparr>"
  define t3 where "t3 = t2\<lparr>mem := put_word (of_nat a2) 4064 (mem t2)\<rparr>"
  define t4 where "t4 = t3\<lparr>mem := put_word (of_nat a3) 1 (mem t3)\<rparr>"
  define t5 where "t5 = t4\<lparr>first := of_nat a4\<rparr>"
  define t6 where "t6 = t5\<lparr>mem := put_word (of_nat a4) 0 (mem t5)\<rparr>"
  define t7 where "t7 = t6\<lparr>mem := put_word (of_nat a5) 0 (mem t6)\<rparr>"
  have ub: "unat (B + 4096) = L + 4096"
    unfolding Bw using unat_of_nat64[OF lt] by simp
  have bnd: "heap_lo t0 = B" "heap_lo t1 = B" "heap_lo t2 = B" "heap_lo t3 = B" "heap_lo t4 = B"
    "heap_lo t5 = B" "heap_lo t6 = B" "heap_lo t7 = B"
    "brk t0 = B + 4096" "brk t1 = B + 4096" "brk t2 = B + 4096" "brk t3 = B + 4096"
    "brk t4 = B + 4096" "brk t5 = B + 4096" "brk t6 = B + 4096" "brk t7 = B + 4096"
    "first t5 = of_nat a4" "first t6 = of_nat a4" "first t7 = of_nat a4"
    "heap_max t7 = heap_max s0"
    unfolding t7_def t6_def t5_def t4_def t3_def t2_def t1_def t0_def B_def by simp_all
  have uB: "unat B = L" unfolding B_def L_def ..
  have ms: "mem_sbrk 4096 s0 = (B, t0)"
    unfolding mem_sbrk_def t0_def B_def br[symmetric] using fit by simp
  have nb: "(B = - 1) = False"
  proof -
    have "al16 B" unfolding al16_def uB using lo(2) unfolding L_def by presburger
    then show ?thesis using not_al16_minus1 by auto
  qed
  have q: "B + 8 = of_nat a1" "B + 4080 = of_nat a2" "B + 4088 = of_nat a3" "B + 16 = of_nat a4"
    "of_nat a4 + 8 = (of_nat a5 :: addr)" "B = of_nat a0"
    unfolding Bw a0_def a1_def a2_def a3_def a4_def a5_def by simp_all
  have v: "lsb_a 0 1 = (1 :: 64 word)" "lsb_a (4096 - 4 * 8) 0 = (4064 :: 64 word)"
    by (simp_all add: lsb_a_def)
  have st: "write_value (of_nat a0) 1 t0 = Some t1" "write_value (of_nat a1) 4064 t1 = Some t2"
    "write_value (of_nat a2) 4064 t2 = Some t3" "write_value (of_nat a3) 1 t3 = Some t4"
    "store64 (of_nat a4) 0 t5 = Some t6" "store64 (of_nat a5) 0 t6 = Some t7"
    unfolding write_value_def t1_def t2_def t3_def t4_def t6_def t7_def
    using bnd ub uB
    by (intro store64_nat; simp add: a0_def a1_def a2_def a3_def a4_def a5_def)+
  have "mm_init s0 = Some (True, t7)"
    unfolding mm_init_def Let_def
    by (simp only: ms prod.case nb if_False v q(1-4) q(6)[symmetric] st(1-4)[unfolded q(6)[symmetric]]
        Option.bind.simps t5_def[symmetric] bnd(17,18) st(5) q(5) st(6))
  then have s: "s = t7" using mi by simp
  show "heap_lo s = heap_lo s0" unfolding s bnd B_def ..
  have d8: "8 dvd a0" "8 dvd a1" "8 dvd a2" "8 dvd a3" "8 dvd a4" "8 dvd a5"
    using lo(2) unfolding L_def[symmetric] a0_def a1_def a2_def a3_def a4_def a5_def by presburger+
  have b64: "a0 < 18446744073709551616" "a1 < 18446744073709551616" "a2 < 18446744073709551616"
    "a3 < 18446744073709551616" "a4 < 18446744073709551616" "a5 < 18446744073709551616"
    using lt unfolding a0_def a1_def a2_def a3_def a4_def a5_def by simp_all
  have ord: "a0 < a1" "a1 < a4" "a4 < a5" "a5 < a2" "a2 < a3"
    unfolding a0_def a1_def a2_def a3_def a4_def a5_def by simp_all
  have m7: "mem t7 = put_word (of_nat a5) 0 (put_word (of_nat a4) 0 (put_word (of_nat a3) 1
      (put_word (of_nat a2) 4064 (put_word (of_nat a1) 4064 (put_word (of_nat a0) 1 (mem s0))))))"
    unfolding t7_def t6_def t5_def t4_def t3_def t2_def t1_def t0_def by simp
  have rd: "word_at (mem t7) (of_nat a0) = 1" "word_at (mem t7) (of_nat a1) = 4064"
    "word_at (mem t7) (of_nat a2) = 4064" "word_at (mem t7) (of_nat a3) = 1"
    "word_at (mem t7) (of_nat a4) = 0" "word_at (mem t7) (of_nat a5) = 0"
    unfolding m7 using d8 b64 ord by (simp_all add: rd_wr)
  have tg: "tag 4064 False = 4064" by (simp add: tag_def lsb_a_def)
  have c1: "unat (brk t7) = unat (heap_lo t7) + 16 + span [(4064, False)]"
    unfolding bnd ub uB by simp
  have c2: "unat (brk t7) \<le> unat (heap_max t7)" unfolding bnd ub using fit unfolding br L_def by simp
  have c3: "word_at (mem t7) (heap_lo t7) = 1" unfolding bnd q(6) by (rule rd(1))
  have "brk t7 - 8 = of_nat a3" unfolding bnd Bw a3_def by simp
  then have c4: "word_at (mem t7) (brk t7 - 8) = 1" using rd(4) by simp
  have "L + 8 = a1" "L + 8 + 4064 + 8 = a2" unfolding a1_def a2_def by simp_all
  then have c5: "chain (mem t7) (unat (heap_lo t7) + 8) [(4064, False)]"
    unfolding bnd uB using rd(2,3) tg by simp
  have x: "heap_lo s0 + 16 = of_nat a4" using q(4) unfolding B_def .
  have nz: "(of_nat a4 :: addr) \<noteq> 0" using of_nat_inj64[OF b64(5), of 0] lo(1)
    unfolding a4_def L_def by simp
  have "16 dvd a4" using lo(2) unfolding a4_def L_def by presburger
  then have a16: "al16 (of_nat a4 :: addr)" by (rule al16_of_nat)
  have ih: "in_heap t7 (of_nat a4) 16"
    using bnd ub uB by (intro in_heap_nat) (simp_all add: a4_def)
  have c6: "free_list t7 [of_nat a4]"
    unfolding free_list_def node_ok_def using rd(5,6) nz a16 ih bnd(19) q(5) by simp
  have c7: "set [of_nat a4 :: addr] = of_nat ` set (free_nodes (unat (heap_lo t7) + 8) [(4064, False)])"
    unfolding bnd uB by (simp add: a4_def)
  show "heap_rep s [(4064, False)] [heap_lo s0 + 16]"
    unfolding s x heap_rep_def using lo c1 c2 c3 c4 c5 c6 c7 by (simp add: bnd B_def)
qed

section \<open>A client of the allocator\<close>

text \<open>
  A client issues allocation requests and releases pointers it holds; \<open>run\<close> performs
  the calls in order and keeps the list of live pointers. A release of a pointer the client
  does not hold is not performed. A request is \<open>small\<close> when rounding it up and adding the
  block overhead does not wrap around.
\<close>

datatype request = Alloc size_t | Release addr

fun run :: "request list \<Rightarrow> heap \<Rightarrow> addr list \<Rightarrow> (addr list \<times> heap) option" where
  "run [] s live = Some (live, s)"
| "run (Alloc n # rs) s live =
     (case malloc n s of None \<Rightarrow> None
      | Some (p, s') \<Rightarrow> run rs s' (if p = 0 then live else p # live))"
| "run (Release p # rs) s live =
     (if p \<in> set live
      then (case free p s of None \<Rightarrow> None | Some s' \<Rightarrow> run rs s' (removeAll p live))
      else run rs s live)"

fun small :: "request \<Rightarrow> bool" where
  "small (Alloc n) = (unat n + 32 \<le> 18446744073709551616)"
| "small (Release p) = True"

definition wf_heap :: "heap \<Rightarrow> addr list \<Rightarrow> bool" where
  "wf_heap s live =
     (\<exists>bs fl. heap_rep s bs fl \<and> no_adj bs \<and>
        set live \<subseteq> of_nat ` set (allocs (unat (heap_lo s) + 8) bs))"

lemma run_inv:
  "wf_heap s live \<Longrightarrow> list_all small rs \<Longrightarrow>
   \<exists>live' s'. run rs s live = Some (live', s') \<and> wf_heap s' live'"
proof (induction rs arbitrary: s live)
  case Nil
  then show ?case by simp
next
  case (Cons r rs)
  from Cons.prems(1) obtain bs fl where w: "heap_rep s bs fl" "no_adj bs"
    "set live \<subseteq> of_nat ` set (allocs (unat (heap_lo s) + 8) bs)"
    unfolding wf_heap_def by blast
  have rs: "list_all small rs" using Cons.prems(2) by simp
  show ?case
  proof (cases r)
    case (Alloc n)
    then have n: "unat n + 32 \<le> 18446744073709551616" using Cons.prems(2) by simp
    from malloc_heap[OF w(1,2) n] obtain p s' where m: "malloc n s = Some (p, s')" "p = 0 \<longrightarrow> s' = s"
      "p \<noteq> 0 \<longrightarrow> (\<exists>bs1 m bs2 fl'. heap_rep s' (bs1 @ (m, True) # bs2) fl' \<and>
           no_adj (bs1 @ (m, True) # bs2) \<and>
           p = of_nat (unat (heap_lo s) + 8 + span bs1 + 8) \<and> unat n \<le> m \<and>
           heap_lo s' = heap_lo s \<and>
           set (allocs (unat (heap_lo s) + 8) (bs1 @ (m, True) # bs2)) =
             insert (unat (heap_lo s) + 8 + span bs1 + 8) (set (allocs (unat (heap_lo s) + 8) bs)) \<and>
           unat (heap_lo s) + 8 + span bs1 + 8 \<notin> set (allocs (unat (heap_lo s) + 8) bs))"
      by blast
    have "wf_heap s' (if p = 0 then live else p # live)"
    proof (cases "p = 0")
      case True
      then show ?thesis using m(2) Cons.prems(1) by simp
    next
      case False
      with m(3) obtain bs1 mm bs2 fl' where a: "heap_rep s' (bs1 @ (mm, True) # bs2) fl'"
        "no_adj (bs1 @ (mm, True) # bs2)" "p = of_nat (unat (heap_lo s) + 8 + span bs1 + 8)"
        "heap_lo s' = heap_lo s"
        "set (allocs (unat (heap_lo s) + 8) (bs1 @ (mm, True) # bs2)) =
           insert (unat (heap_lo s) + 8 + span bs1 + 8) (set (allocs (unat (heap_lo s) + 8) bs))"
        by blast
      have "set (p # live) \<subseteq> of_nat ` set (allocs (unat (heap_lo s') + 8) (bs1 @ (mm, True) # bs2))"
        unfolding a(4) a(5) using w(3) a(3) by auto
      then show ?thesis unfolding wf_heap_def using False a(1,2) by auto
    qed
    from Cons.IH[OF this rs] show ?thesis unfolding Alloc using m(1) by simp
  next
    case (Release p)
    show ?thesis
    proof (cases "p \<in> set live")
      case False
      then show ?thesis unfolding Release using Cons.IH[OF Cons.prems(1) rs] by simp
    next
      case True
      then obtain nn where nn: "p = of_nat nn" "nn \<in> set (allocs (unat (heap_lo s) + 8) bs)"
        using w(3) by blast
      from allocs_split[OF nn(2)] obtain bs1 sz bs2 where bs: "bs = bs1 @ (sz, True) # bs2"
        and ne: "nn = unat (heap_lo s) + 8 + span bs1 + 8" by blast
      from free_heap[OF w(1)[unfolded bs] w(2)[unfolded bs] nn(1)[unfolded ne]]
      obtain s' xs m ys fl' where f: "free p s = Some s'" "same_bounds s s'"
        "heap_rep s' (xs @ (m, False) # ys) fl'" "no_adj (xs @ (m, False) # ys)"
        "set (allocs (unat (heap_lo s) + 8) (xs @ (m, False) # ys)) =
           set (allocs (unat (heap_lo s) + 8) (bs1 @ (sz, True) # bs2)) -
             {unat (heap_lo s) + 8 + span bs1 + 8}"
        by blast
      have hl: "heap_lo s' = heap_lo s" using f(2) by (simp add: same_bounds_def)
      have "set (removeAll p live) \<subseteq> of_nat ` set (allocs (unat (heap_lo s') + 8) (xs @ (m, False) # ys))"
      proof
        fix q assume "q \<in> set (removeAll p live)"
        then have q: "q \<in> set live" "q \<noteq> p" by auto
        then obtain k where k: "q = of_nat k" "k \<in> set (allocs (unat (heap_lo s) + 8) bs)"
          using w(3) by blast
        have "k \<noteq> nn" using q(2) k(1) nn(1) by auto
        then have "k \<in> set (allocs (unat (heap_lo s) + 8) (xs @ (m, False) # ys))"
          unfolding f(5) using k(2) unfolding bs ne by simp
        then show "q \<in> of_nat ` set (allocs (unat (heap_lo s') + 8) (xs @ (m, False) # ys))"
          unfolding hl k(1) by (rule imageI)
      qed
      then have "wf_heap s' (removeAll p live)" unfolding wf_heap_def using f(3,4) by blast
      from Cons.IH[OF this rs] show ?thesis unfolding Release using True f(1) by simp
    qed
  qed
qed

section \<open>The claims\<close>

text \<open>
  C10. \<open>remove_node\<close> unlinks a node of the free list in each of the four structural
  cases. For a well-formed free list \<open>ys @ c # zs\<close> (interior: \<open>ys\<close> and \<open>zs\<close> not
  empty; head: \<open>ys\<close> empty; tail: \<open>zs\<close> empty; sole element: both empty),
  \<open>remove_node\<close> on the block of node \<open>c\<close> returns and leaves the well-formed free
  list \<open>ys @ zs\<close>. For the sole element the root \<open>first\<close> becomes null and memory is
  untouched: the last test of the source, \<open>prev_node == NULL && prev_node == NULL\<close>, is
  only reached when \<open>next_node\<close> is null as well.
\<close>

theorem remove_node_unlinks:
  assumes "free_list s (ys @ c # zs)"
  shows "\<exists>s'. remove_node (c - 8) s = Some s' \<and> free_list s' (ys @ zs) \<and>
           (ys = [] \<and> zs = [] \<longrightarrow> first s' = 0 \<and> mem s' = mem s)"
proof -
  note n = free_list_nodes[OF assms]
  have "remove_node (c - 8) s =
      Some (s\<lparr>mem := unlink_mem (mem s) (last0 ys 0) (hd0 zs 0),
               first := (if last0 ys 0 = 0 then hd0 zs 0 else first s)\<rparr>)"
    using n by (intro remove_node_eq) auto
  moreover have "ys = [] \<and> zs = [] \<longrightarrow> unlink_mem (mem s) (last0 ys 0) (hd0 zs 0) = mem s"
    by (simp add: unlink_mem_def last0_def hd0_def)
  ultimately show ?thesis
    using remove_node_free_list[OF assms] by (auto simp: last0_def hd0_def)
qed

theorem remove_node_unlinks_witness:
  "free_list heap_holes ([0x10070] @ 0x10030 # [0x100B0]) \<and>
   (\<exists>s'. remove_node (0x10030 - 8) heap_holes = Some s' \<and> free_list s' ([0x10070] @ [0x100B0]))
   \<and> free_list heap_init ([] @ 0x10010 # []) \<and>
   (\<exists>s'. remove_node (0x10010 - 8) heap_init = Some s' \<and> first s' = 0 \<and> mem s' = mem heap_init)"
proof -
  have a: "free_list heap_holes ([0x10070] @ 0x10030 # [0x100B0])"
    using heap_holes_list by simp
  have b: "free_list heap_init ([] @ 0x10010 # [])"
    by (simp add: heap_init_def heap0_def eval_simps free_list_def node_ok_def al16_def)
  show ?thesis
    using a b remove_node_unlinks[OF a] remove_node_unlinks[OF b] by auto
qed

text \<open>
  C8. \<open>free(NULL)\<close> returns the heap as it was, and so does \<open>free(p)\<close> on a block
  whose header has the allocation bit clear: neither memory nor the free list changes.
\<close>

theorem free_null_or_free_block:
  "free 0 s = Some s \<and> (get_allocated s (p - 8) = Some False \<longrightarrow> free p s = Some s)"
  by (simp add: free_def)

theorem free_null_or_free_block_witness:
  "free 0 heap_init = Some heap_init \<and> get_allocated heap_init (0x10010 - 8) = Some False
   \<and> free 0x10010 heap_init = Some heap_init"
proof -
  have h: "get_allocated heap_init (0x10010 - 8) = Some False"
    by (simp add: heap_init_def heap0_def eval_simps)
  show ?thesis
    using free_null_or_free_block[of heap_init "0x10010"] h by simp
qed

text \<open>
  C6. \<open>realloc(NULL, n)\<close> does not behave as \<open>malloc(n)\<close>: \<open>realloc\<close> reads the
  size word of the block header at \<open>oldptr - 8\<close> before it tests \<open>oldptr == NULL\<close>, and
  for the null pointer that word lies outside the heap. On the freshly initialised heap
  \<open>realloc(NULL, 50)\<close> does not return, while \<open>malloc(50)\<close> returns the payload at
  \<open>0x10010\<close>.
\<close>

theorem realloc_null_faults:
  "realloc 0 50 heap_init = None \<and> (\<exists>s'. malloc 50 heap_init = Some (0x10010, s'))"
proof
  show "realloc 0 50 heap_init = None"
    by (simp add: realloc_def get_size_def load64_def in_heap_null_hdr)
  show "\<exists>s'. malloc 50 heap_init = Some (0x10010, s')"
    by (simp add: heap_init_def heap0_def eval_simps)
qed

text \<open>
  C7, as stated. A block of capacity 16 (32 with its header and footer) is at least as
  large as the aligned size 16 that \<open>realloc(p, 16)\<close> newly requires, and yet the call
  does not return \<open>p\<close> with an unmodified heap: it allocates a second block.
\<close>

theorem realloc_capacity_counterexample:
  "malloc 16 heap_init = Some (0x10010, heap_a16) \<and> get_size heap_a16 (0x10010 - 8) = Some 16 \<and> align 16 = 16
   \<and> realloc 0x10010 16 heap_a16 \<noteq> Some (0x10010, heap_a16)"
proof -
  have m: "malloc 16 heap_init = Some (0x10010, heap_a16)"
    unfolding heap_a16_def by (simp add: heap_init_def heap0_def eval_simps)
  have h: "get_size heap_a16 (0x10010 - 8) = Some 16"
    by (simp add: heap_a16_def heap_init_def heap0_def eval_simps)
  have a: "align 16 = 16" by (simp add: align_def)
  have n: "map_option fst (malloc 16 heap_a16) = Some 0x10030"
    by (simp add: heap_a16_def heap_init_def heap0_def eval_simps)
  have "realloc 0x10010 16 heap_a16 \<noteq> Some (0x10010, heap_a16)"
  proof
    assume "realloc 0x10010 16 heap_a16 = Some (0x10010, heap_a16)"
    from realloc_moves[OF this _ _ h] a obtain s1 where "malloc 16 heap_a16 = Some (0x10010, s1)"
      by auto
    with n show False by simp
  qed
  with m h a show ?thesis by simp
qed

text \<open>
  C7, amended. For a non-null pointer \<open>oldptr\<close> and a size \<open>size0 > 0\<close>, if the size
  recorded in the block's header (the payload capacity, without header and footer) is
  at least the aligned new size plus the 16 bytes of header and footer, then
  \<open>realloc\<close> returns \<open>oldptr\<close> and leaves the heap, free list included, exactly as it
  was.
\<close>

theorem realloc_in_place:
  "oldptr \<noteq> 0 \<Longrightarrow> size0 \<noteq> 0 \<Longrightarrow> get_size s (oldptr - 8) = Some c \<Longrightarrow>
   align size0 + 16 \<le> c \<Longrightarrow> realloc oldptr size0 s = Some (oldptr, s)"
  by (simp add: realloc_def)

theorem realloc_in_place_witness:
  "(0x10010 :: addr) \<noteq> 0 \<and> (50 :: size_t) \<noteq> 0 \<and> get_size heap_a100 (0x10010 - 8) = Some 112
   \<and> align 50 + 16 \<le> (112 :: size_t) \<and> realloc 0x10010 50 heap_a100 = Some (0x10010, heap_a100)"
proof -
  have h: "get_size heap_a100 (0x10010 - 8) = Some 112"
    by (simp add: heap_a100_def heap_init_def heap0_def eval_simps)
  have a: "align 50 + 16 \<le> (112 :: size_t)"
    by (simp add: align_def)
  show ?thesis
    using realloc_in_place[of "0x10010" 50 heap_a100 112] h a by simp
qed

text \<open>
  C9. \<open>calloc\<close> multiplies its arguments in \<open>size_t\<close> without an overflow check.
  \<open>calloc(2^63 + 1, 2)\<close> asks for \<open>2^64 + 2\<close> bytes; the product wraps to 2, the call
  returns the non-null pointer \<open>0x10010\<close> to a block of capacity 16 of which it zeroed
  two bytes, and the byte at offset 16 of the returned array is 17, not zero.
\<close>

theorem calloc_overflow:
  "(do { (p, s') \<leftarrow> calloc 0x8000000000000001 2 heap_init;
         Some (p, get_size s' (p - 8), load8 s' (p + 16)) }) = Some (0x10010, Some 16, Some 17)
   \<and> unat (0x8000000000000001 :: size_t) * unat (2 :: size_t) = 2 ^ 64 + 2"
  by (simp add: heap_init_def heap0_def eval_simps mem_memset_def fill_bytes_2 load8_def
      store8_def word_at_upd_outside put_word_outside put_word_byte0)

text \<open>
  C1. \<open>malloc\<close> does not guard the request against wrap-around. After
  \<open>p = malloc(4064)\<close> the call \<open>malloc(2^64 - 16)\<close> extends the heap by 4096 bytes and
  "succeeds"; \<open>split\<close> computes the footer address \<open>ptr + size + 8\<close>, which wraps to
  the word before the new block, the footer of \<open>p\<close>'s block. Afterwards the header of
  \<open>p\<close>'s block reads \<open>4064 | 1\<close> and its footer \<open>(2^64 - 16) | 1\<close>.
\<close>

theorem malloc_overflow_clobbers_footer:
  "(do { (p, s1) \<leftarrow> malloc 4064 heap_init; (q, s2) \<leftarrow> malloc 0xFFFFFFFFFFFFFFF0 s1;
         Some (p, q, load64 s2 (p - 8), load64 s2 (p + 4064)) })
   = Some (0x10010, 0x11000, Some 4065, Some 0xFFFFFFFFFFFFFFF1)"
  by (simp add: heap_init_def heap0_def eval_simps)

text \<open>
  C2. On the freshly initialised heap \<open>malloc(2^64 - 16)\<close> returns the non-null pointer
  \<open>0x10010\<close>, although no heap holds that many bytes, and leaves the block it returned
  marked free and on the free list; the next \<open>malloc(16)\<close> returns \<open>0x10010\<close> again.
  The two outstanding allocations overlap, and the first does not lie inside the heap
  \<open>[0x10000, 0x12000)\<close>.
\<close>

theorem malloc_overflow_overlap:
  "(do { (p, s1) \<leftarrow> malloc 0xFFFFFFFFFFFFFFF0 heap_init; (q, s2) \<leftarrow> malloc 16 s1;
         Some (p, q, heap_lo s2, brk s2) }) = Some (0x10010, 0x10010, 0x10000, 0x12000)"
  by (simp add: heap_init_def heap0_def eval_simps)



text \<open>
  C4. The first half holds on a well-formed heap in which no two neighbouring blocks are
  free: releasing the payload pointer of an allocated block returns, the heap is again
  well-formed, the released block has become part of a free block \<open>(m, False)\<close> that covers
  it, and no two neighbouring blocks are both free. The second half does not hold as written:
  on the merged block \<open>coalesce\<close> takes its first branch, so it merges nothing, but it calls
  \<open>add_node\<close> on a block that is already in the free list. After \<open>malloc 100\<close> and \<open>free\<close>
  on the initial heap the node at \<open>0x10010\<close> has the successor \<open>0\<close>; after a second
  \<open>coalesce\<close> on the same block its successor is \<open>0x10010\<close>, the node itself.
\<close>

theorem coalesce_rerun_counterexample:
  "(do { (p, s1) \<leftarrow> malloc 100 heap_init; s2 \<leftarrow> free p s1; s3 \<leftarrow> coalesce (p - 8) s2;
         Some (p, load64 s2 p, load64 s3 p) }) = Some (0x10010, Some 0, Some 0x10010)"
  by (simp add: heap_init_def heap0_def eval_simps)

text \<open>
  C4, as it holds: release leaves no two neighbouring free blocks, and running \<open>coalesce\<close>
  again on the merged block is exactly \<open>add_node\<close> on that block.
\<close>

theorem free_no_adjacent_free:
  assumes "heap_rep s (bs1 @ (sz, True) # bs2) fl" and "no_adj (bs1 @ (sz, True) # bs2)"
    and "p = of_nat (unat (heap_lo s) + 8 + span bs1 + 8)"
  shows "\<exists>s' xs m ys fl'. free p s = Some s' \<and>
     heap_rep s' (xs @ (m, False) # ys) fl' \<and> no_adj (xs @ (m, False) # ys) \<and>
     span xs \<le> span bs1 \<and> span bs1 + sz \<le> span xs + m \<and>
     coalesce (of_nat (unat (heap_lo s') + 8 + span xs)) s' =
       add_node (of_nat (unat (heap_lo s') + 8 + span xs)) s'"
proof -
  from free_heap[OF assms] obtain s' xs m ys fl' where s': "free p s = Some s'"
    "heap_rep s' (xs @ (m, False) # ys) fl'" "no_adj (xs @ (m, False) # ys)"
    "span xs \<le> span bs1" "span bs1 + sz \<le> span xs + m" by blast
  show ?thesis using s' coalesce_again[OF s'(2,3)] by blast
qed

theorem free_no_adjacent_free_witness:
  "heap_rep heap_holes ([(16, True), (16, False)] @ (16, True) # [(16, False), (16, True), (3904, False)])
     [0x10070, 0x10030, 0x100B0] \<and>
   no_adj ([(16, True), (16, False)] @ (16, True) # [(16, False), (16, True), (3904, False)]) \<and>
   (\<exists>s' xs m ys fl'. free 0x10050 heap_holes = Some s' \<and>
     heap_rep s' (xs @ (m, False) # ys) fl' \<and> no_adj (xs @ (m, False) # ys) \<and>
     span xs \<le> span [(16, True), (16 :: nat, False)] \<and>
     span [(16, True), (16 :: nat, False)] + 16 \<le> span xs + m \<and>
     coalesce (of_nat (unat (heap_lo s') + 8 + span xs)) s' =
       add_node (of_nat (unat (heap_lo s') + 8 + span xs)) s')"
proof -
  have r: "heap_rep heap_holes ([(16, True), (16, False)] @ (16, True) # [(16, False), (16, True), (3904, False)])
     [0x10070, 0x10030, 0x100B0]" using heap_holes_rep by simp
  have lo: "heap_lo heap_holes = 0x10000" using heap_holes_rep by simp
  have n: "no_adj ([(16, True), (16, False)] @ (16, True) # [(16 :: nat, False), (16, True), (3904, False)])"
    by simp
  have p: "(0x10050 :: addr) = of_nat (unat (heap_lo heap_holes) + 8 + span [(16, True), (16, False)] + 8)"
    unfolding lo by simp
  show ?thesis using r n free_no_adjacent_free[OF r n p] by blast
qed




end
